theory Spec2Isabelle
  imports Main "HOL-Library.Word"
begin

section \<open>VaultbornStaking: the confidential staking ledger\<close>

text \<open>
  A shallow embedding of \<^verbatim>\<open>contracts/VaultbornStaking.sol\<close>. Every external
  function of the contract is a HOL function from the state before the call to either an
  error (the call reverts) or a return value and the state after the call. A Solidity
  mapping is a total function (every key holds the zero value until written), an
  \<^verbatim>\<open>address\<close> and a \<^verbatim>\<open>uint256\<close> are natural numbers (\<open>address(0)\<close> is
  \<open>0\<close>), checked arithmetic that can overflow returns the panic, and unchecked
  arithmetic wraps modulo \<open>2 ^ 256\<close>.

  Events are not modelled: they write no storage and no function reads them.
\<close>

subsection \<open>Values and errors\<close>

type_synonym address = nat
type_synonym uint256 = nat
type_synonym bytes = "8 word list"

text \<open>\<^verbatim>\<open>euint256\<close> wraps a \<^verbatim>\<open>bytes32\<close> ciphertext handle; the zero handle is the
  uninitialised one.\<close>

type_synonym euint256 = nat

definition MAX_UINT256 :: nat where
  "MAX_UINT256 = 2 ^ 256 - 1"

text \<open>
  The revert reasons. The contract reverts with strings, the specification names them:
  \<^item> \<open>ZeroAmount\<close>: \<^verbatim>\<open>"Stake must be greater than zero"\<close>
  \<^item> \<open>StakeNotFound\<close>: \<^verbatim>\<open>"Stake not found"\<close>
  \<^item> \<open>InvalidCertificate\<close>: \<^verbatim>\<open>"Invalid token"\<close>
  \<^item> \<open>Unauthorized\<close>: \<^verbatim>\<open>"Not authorized"\<close>
  \<^item> \<open>RedemptionAlreadyPending\<close>: \<^verbatim>\<open>"Decryption pending"\<close>
  \<^item> \<open>InvalidOracle\<close>: \<^verbatim>\<open>"Invalid oracle"\<close>
  \<^item> \<open>UnknownRequest\<close>: \<^verbatim>\<open>"Unknown request"\<close>
  \<^item> \<open>InvalidProof\<close>: the revert of \<^verbatim>\<open>FHE.checkSignatures\<close>
  \<^item> \<open>TransferFailed\<close>: \<^verbatim>\<open>"Transfer failed"\<close>
  The others are the custom errors of the inherited token and guard contracts, the
  arithmetic panic of checked \<^verbatim>\<open>uint256\<close> addition and subtraction, and the failure of
  \<^verbatim>\<open>abi.decode\<close> on short input.
\<close>

datatype error =
    ZeroAmount
  | StakeNotFound
  | InvalidCertificate
  | Unauthorized
  | RedemptionAlreadyPending
  | InvalidOracle
  | UnknownRequest
  | InvalidProof
  | TransferFailed
  | ReentrancyGuardReentrantCall
  | PanicArithmetic
  | AbiDecodeError
  | ERC721InvalidOwner
  | ERC721InvalidReceiver
  | ERC721InvalidSender
  | ERC721NonexistentToken
  | ERC721OutOfBoundsIndex
  | ERC721IncorrectOwner
  | ERC721InsufficientApproval
  | ERC721InvalidApprover
  | ERC721InvalidOperator

subsection \<open>Storage\<close>

text \<open>\<^verbatim>\<open>struct PendingWithdrawal { address payable recipient; uint256 tokenId; bool exists; }\<close>\<close>

record PendingWithdrawal =
  recipient :: address
  tokenId :: uint256
  exists :: bool

text \<open>
  The storage of the deployed contract: the reentrancy guard's status, the token
  registry inherited from \<^verbatim>\<open>ERC721\<close> and \<^verbatim>\<open>ERC721Enumerable\<close>, the five
  variables the contract declares itself (lines 23 to 27), the decryption requests kept
  by the FHE library, and the ether the contract holds. \<open>sent\<close> is a ghost field: the
  log of the value transfers the contract has made, oldest first.
\<close>

record state =
  entered :: bool
  owners :: "uint256 \<Rightarrow> address"
  balances :: "address \<Rightarrow> uint256"
  tokenApprovals :: "uint256 \<Rightarrow> address"
  operatorApprovals :: "address \<Rightarrow> address \<Rightarrow> bool"
  ownedTokens :: "address \<Rightarrow> uint256 \<Rightarrow> uint256"
  ownedTokensIndex :: "uint256 \<Rightarrow> uint256"
  nextTokenId :: uint256
  encryptedStakes :: "uint256 \<Rightarrow> euint256"
  pendingByRequest :: "uint256 \<Rightarrow> PendingWithdrawal"
  requestByToken :: "uint256 \<Rightarrow> uint256"
  isTokenPending :: "uint256 \<Rightarrow> bool"
  counterRequest :: uint256
  requestedHandles :: "uint256 \<Rightarrow> euint256 list"
  ethBalance :: uint256
  sent :: "(address \<times> uint256) list"

text \<open>
  What is fixed at deployment and what the contract calls but does not implement: the two
  immutables set by the constructor (lines 33 to 37), the trivial encryption of the FHE
  coprocessor, the signature check of the key management service, and the behaviour of
  the accounts the contract calls (whether an account accepts plain ether, and whether it
  accepts a token through \<^verbatim>\<open>onERC721Received\<close>; an externally owned account accepts
  both). The code of a called account is not modelled beyond its answer. \<open>decrypt\<close> is
  the plaintext behind a handle; the contract never calls it, only the oracle and a viewer
  with the user key can compute it.
\<close>

record env =
  decryptionOracle :: address
  enforceOracleCheck :: bool
  asEuint256 :: "uint256 \<Rightarrow> euint256"
  verifySignatures :: "euint256 list \<Rightarrow> bytes \<Rightarrow> bytes \<Rightarrow> bool"
  acceptsEther :: "address \<Rightarrow> bool"
  acceptsToken :: "address \<Rightarrow> bool"
  decrypt :: "euint256 \<Rightarrow> uint256"

text \<open>The zero value of the struct, which \<^verbatim>\<open>delete\<close> writes.\<close>

definition noPending :: PendingWithdrawal where
  "noPending = \<lparr>recipient = 0, tokenId = 0, exists = False\<rparr>"

text \<open>The state after the constructor: \<^verbatim>\<open>_nextTokenId = 1\<close>, everything else zero.\<close>

definition init :: state where
  "init = \<lparr>entered = False, owners = (\<lambda>_. 0), balances = (\<lambda>_. 0),
     tokenApprovals = (\<lambda>_. 0), operatorApprovals = (\<lambda>_ _. False),
     ownedTokens = (\<lambda>_ _. 0), ownedTokensIndex = (\<lambda>_. 0), nextTokenId = 1,
     encryptedStakes = (\<lambda>_. 0), pendingByRequest = (\<lambda>_. noPending),
     requestByToken = (\<lambda>_. 0), isTokenPending = (\<lambda>_. False), counterRequest = 0,
     requestedHandles = (\<lambda>_. []), ethBalance = 0, sent = []\<rparr>"

subsection \<open>Calls, reverts and the reentrancy guard\<close>

text \<open>
  A function body is a \<open>state \<Rightarrow> error + 'a \<times> state\<close>. A call that reverts leaves storage
  and balances as they were before it: \<open>transact\<close> is the call as a transaction sees it,
  the outcome paired with the state that persists.
\<close>

definition transact :: "(state \<Rightarrow> error + 'a \<times> state) \<Rightarrow> state \<Rightarrow> (error + 'a) \<times> state" where
  "transact f s = (case f s of Inl e \<Rightarrow> (Inl e, s) | Inr (v, s') \<Rightarrow> (Inr v, s'))"

text \<open>
  \<^verbatim>\<open>modifier nonReentrant\<close> of \<^verbatim>\<open>ReentrancyGuard\<close>: revert when the status is
  ENTERED, otherwise set it, run the body and reset it.
\<close>

definition nonReentrant :: "(state \<Rightarrow> error + 'a \<times> state) \<Rightarrow> state \<Rightarrow> error + 'a \<times> state" where
  "nonReentrant body s =
     (if entered s then Inl ReentrancyGuardReentrantCall
      else case body (s\<lparr>entered := True\<rparr>) of
             Inl e \<Rightarrow> Inl e
           | Inr (v, s') \<Rightarrow> Inr (v, s'\<lparr>entered := False\<rparr>))"

text \<open>\<^verbatim>\<open>unchecked { x += 1; }\<close> and \<^verbatim>\<open>unchecked { x -= 1; }\<close> on a \<^verbatim>\<open>uint256\<close>.\<close>

definition unchecked_inc :: "uint256 \<Rightarrow> uint256" where
  "unchecked_inc x = (x + 1) mod 2 ^ 256"

definition unchecked_dec :: "uint256 \<Rightarrow> uint256" where
  "unchecked_dec x = (x + 2 ^ 256 - 1) mod 2 ^ 256"

subsection \<open>The token registry (ERC721, ERC721Enumerable)\<close>

text \<open>
  The contract inherits \<^verbatim>\<open>ERC721Enumerable\<close> of OpenZeppelin Contracts 5 (the import
  at line 5; the library is not part of the repository). The functions below follow the
  library function by function, under the library's names. The enumeration of all tokens
  (\<^verbatim>\<open>_allTokens\<close>, behind \<^verbatim>\<open>totalSupply\<close> and \<^verbatim>\<open>tokenByIndex\<close>) is left out: the
  contract reads it nowhere.
\<close>

definition isApprovedForAll :: "state \<Rightarrow> address \<Rightarrow> address \<Rightarrow> bool" where
  "isApprovedForAll s owner operator = operatorApprovals s owner operator"

text \<open>\<^verbatim>\<open>_isAuthorized(owner, spender, tokenId)\<close>\<close>

definition isAuthorized :: "state \<Rightarrow> address \<Rightarrow> address \<Rightarrow> uint256 \<Rightarrow> bool" where
  "isAuthorized s owner spender tid \<longleftrightarrow>
     spender \<noteq> 0 \<and>
     (owner = spender \<or> isApprovedForAll s owner spender \<or> tokenApprovals s tid = spender)"



text \<open>
  \<^verbatim>\<open>ERC721._update(to, tokenId, auth)\<close>: the optional authorisation check, then the
  approval is cleared, the two balances move (unchecked) and the owner is written. It
  returns the previous owner.
\<close>

definition erc721_update :: "address \<Rightarrow> uint256 \<Rightarrow> address \<Rightarrow> state \<Rightarrow> error + address \<times> state" where
  "erc721_update to tid auth s =
     (let from = owners s tid in
      if auth \<noteq> 0 \<and> \<not> isAuthorized s from auth tid then
        Inl (if from = 0 then ERC721NonexistentToken else ERC721InsufficientApproval)
      else
        let s1 = (if from \<noteq> 0
                  then s\<lparr>tokenApprovals := (tokenApprovals s)(tid := 0),
                         balances := (balances s)(from := unchecked_dec (balances s from))\<rparr>
                  else s);
            s2 = (if to \<noteq> 0
                  then s1\<lparr>balances := (balances s1)(to := unchecked_inc (balances s1 to))\<rparr>
                  else s1)
        in Inr (from, s2\<lparr>owners := (owners s2)(tid := to)\<rparr>))"

text \<open>
  \<^verbatim>\<open>_addTokenToOwnerEnumeration(to, tokenId)\<close>: the token takes the slot
  \<^verbatim>\<open>balanceOf(to) - 1\<close>, the one after the last (the balance has been incremented
  already). The subtraction is checked.
\<close>

definition addTokenToOwnerEnumeration :: "address \<Rightarrow> uint256 \<Rightarrow> state \<Rightarrow> error + state" where
  "addTokenToOwnerEnumeration to tid s =
     (if balances s to < 1 then Inl PanicArithmetic
      else
        let len = balances s to - 1 in
        Inr (s\<lparr>ownedTokens := (ownedTokens s)(to := (ownedTokens s to)(len := tid)),
              ownedTokensIndex := (ownedTokensIndex s)(tid := len)\<rparr>))"

text \<open>
  \<^verbatim>\<open>_removeTokenFromOwnerEnumeration(from, tokenId)\<close>: swap and pop. The last token
  of the owner moves into the slot of the removed token, then the last slot is deleted
  (the balance has been decremented already, so it is the index of the last slot).
\<close>

definition removeTokenFromOwnerEnumeration :: "address \<Rightarrow> uint256 \<Rightarrow> state \<Rightarrow> state" where
  "removeTokenFromOwnerEnumeration from tid s =
     (let lastTokenIndex = balances s from;
          tokenIndex = ownedTokensIndex s tid;
          s1 = (if tokenIndex \<noteq> lastTokenIndex
                then let lastTokenId = ownedTokens s from lastTokenIndex in
                     s\<lparr>ownedTokens := (ownedTokens s)
                          (from := (ownedTokens s from)(tokenIndex := lastTokenId)),
                       ownedTokensIndex := (ownedTokensIndex s)(lastTokenId := tokenIndex)\<rparr>
                else s)
      in s1\<lparr>ownedTokensIndex := (ownedTokensIndex s1)(tid := 0),
            ownedTokens := (ownedTokens s1)
              (from := (ownedTokens s1 from)(lastTokenIndex := 0))\<rparr>)"

text \<open>
  \<^verbatim>\<open>ERC721Enumerable._update\<close>: the base update, then the owner enumerations.
  (The two branches that maintain the enumeration of all tokens change nothing here.)
\<close>

definition update :: "address \<Rightarrow> uint256 \<Rightarrow> address \<Rightarrow> state \<Rightarrow> error + address \<times> state" where
  "update to tid auth s =
     (case erc721_update to tid auth s of
        Inl e \<Rightarrow> Inl e
      | Inr (previousOwner, s1) \<Rightarrow>
          let s2 = (if previousOwner = 0 then s1
                    else if previousOwner \<noteq> to
                      then removeTokenFromOwnerEnumeration previousOwner tid s1
                    else s1)
          in if to = 0 then Inr (previousOwner, s2)
             else if previousOwner \<noteq> to
               then (case addTokenToOwnerEnumeration to tid s2 of
                       Inl e \<Rightarrow> Inl e
                     | Inr s3 \<Rightarrow> Inr (previousOwner, s3))
             else Inr (previousOwner, s2))"

definition mint :: "address \<Rightarrow> uint256 \<Rightarrow> state \<Rightarrow> error + state" where
  "mint to tid s =
     (if to = 0 then Inl ERC721InvalidReceiver
      else case update to tid 0 s of
             Inl e \<Rightarrow> Inl e
           | Inr (previousOwner, s') \<Rightarrow>
               if previousOwner \<noteq> 0 then Inl ERC721InvalidSender else Inr s')"

text \<open>\<^verbatim>\<open>_safeMint\<close>: mint, then the receiver must accept the token.\<close>

definition safeMint :: "env \<Rightarrow> address \<Rightarrow> uint256 \<Rightarrow> state \<Rightarrow> error + state" where
  "safeMint ev to tid s =
     (case mint to tid s of
        Inl e \<Rightarrow> Inl e
      | Inr s' \<Rightarrow> if acceptsToken ev to then Inr s' else Inl ERC721InvalidReceiver)"

definition burn :: "uint256 \<Rightarrow> state \<Rightarrow> error + state" where
  "burn tid s =
     (case update 0 tid 0 s of
        Inl e \<Rightarrow> Inl e
      | Inr (previousOwner, s') \<Rightarrow>
          if previousOwner = 0 then Inl ERC721NonexistentToken else Inr s')"

text \<open>The three public functions of the token that write storage.\<close>

definition transferFrom :: "address \<Rightarrow> address \<Rightarrow> address \<Rightarrow> uint256 \<Rightarrow> state \<Rightarrow> error + unit \<times> state" where
  "transferFrom sender from to tid s =
     (if to = 0 then Inl ERC721InvalidReceiver
      else case update to tid sender s of
             Inl e \<Rightarrow> Inl e
           | Inr (previousOwner, s') \<Rightarrow>
               if previousOwner \<noteq> from then Inl ERC721IncorrectOwner else Inr ((), s'))"

definition safeTransferFrom :: "env \<Rightarrow> address \<Rightarrow> address \<Rightarrow> address \<Rightarrow> uint256 \<Rightarrow> state \<Rightarrow> error + unit \<times> state" where
  "safeTransferFrom ev sender from to tid s =
     (case transferFrom sender from to tid s of
        Inl e \<Rightarrow> Inl e
      | Inr r \<Rightarrow> if acceptsToken ev to then Inr r else Inl ERC721InvalidReceiver)"

definition approve :: "address \<Rightarrow> address \<Rightarrow> uint256 \<Rightarrow> state \<Rightarrow> error + unit \<times> state" where
  "approve sender to tid s =
     (let owner = owners s tid in
      if owner = 0 then Inl ERC721NonexistentToken
      else if sender \<noteq> 0 \<and> owner \<noteq> sender \<and> \<not> isApprovedForAll s owner sender
        then Inl ERC721InvalidApprover
      else Inr ((), s\<lparr>tokenApprovals := (tokenApprovals s)(tid := to)\<rparr>))"

definition setApprovalForAll :: "address \<Rightarrow> address \<Rightarrow> bool \<Rightarrow> state \<Rightarrow> error + unit \<times> state" where
  "setApprovalForAll sender operator approved s =
     (if operator = 0 then Inl ERC721InvalidOperator
      else Inr ((), s\<lparr>operatorApprovals := (operatorApprovals s)
                        (sender := (operatorApprovals s sender)(operator := approved))\<rparr>))"

subsection \<open>The encryption and oracle capabilities (FHE library)\<close>

text \<open>\<^verbatim>\<open>FHE.isInitialized\<close> and \<^verbatim>\<open>FHE.toBytes32\<close> unwrap the handle.\<close>

definition isInitialized :: "euint256 \<Rightarrow> bool" where
  "isInitialized h \<longleftrightarrow> h \<noteq> 0"

definition toBytes32 :: "euint256 \<Rightarrow> nat" where
  "toBytes32 h = h"

text \<open>
  Modelled from the spec: \<^verbatim>\<open>FHE.requestDecryption\<close> and \<^verbatim>\<open>FHE.checkSignatures\<close>
  belong to the FHE library, which is not under src/. By sections 4.4 and 6 of the
  specification, a submission of ciphertext handles returns a request identifier that is
  unique (here: the value of a counter, which then advances) and remembers the handles
  submitted for it; the check verifies cleartext and proof against the handles that were
  submitted for the request and fails on a mismatch. The verification itself is the
  parameter \<open>verifySignatures\<close>.
\<close>

definition requestDecryption :: "euint256 list \<Rightarrow> state \<Rightarrow> uint256 \<times> state" where
  "requestDecryption ctsHandles s =
     (let requestID = counterRequest s in
      (requestID, s\<lparr>requestedHandles := (requestedHandles s)(requestID := ctsHandles),
                    counterRequest := requestID + 1\<rparr>))"

definition checkSignatures :: "env \<Rightarrow> uint256 \<Rightarrow> bytes \<Rightarrow> bytes \<Rightarrow> state \<Rightarrow> bool" where
  "checkSignatures ev requestID cleartexts decryptionProof s =
     verifySignatures ev (requestedHandles s requestID) cleartexts decryptionProof"

text \<open>
  \<^verbatim>\<open>abi.decode(cleartexts, (uint256))\<close>: the first 32 bytes, big-endian; it reverts on
  fewer than 32 bytes.
\<close>

definition abi_decode_uint256 :: "bytes \<Rightarrow> error + uint256" where
  "abi_decode_uint256 bs =
     (if length bs < 32 then Inl AbiDecodeError
      else Inr (foldl (\<lambda>acc b. acc * 256 + unat b) 0 (take 32 bs)))"

text \<open>
  \<^verbatim>\<open>recipient.call{value: amount}("")\<close>: the call fails when the contract holds less
  than \<open>amount\<close> or the recipient does not accept the ether; otherwise the ether leaves
  the contract.
\<close>

definition call_value :: "env \<Rightarrow> address \<Rightarrow> uint256 \<Rightarrow> state \<Rightarrow> bool \<times> state" where
  "call_value ev to amount s =
     (if ethBalance s < amount \<or> \<not> acceptsEther ev to then (False, s)
      else (True, s\<lparr>ethBalance := ethBalance s - amount, sent := sent s @ [(to, amount)]\<rparr>))"

subsection \<open>The contract's functions\<close>

text \<open>
  \<^verbatim>\<open>stake()\<close>, lines 41 to 58. \<open>sender\<close> is \<^verbatim>\<open>msg.sender\<close> and \<open>val\<close> is
  \<^verbatim>\<open>msg.value\<close>, which the contract holds as soon as the call starts. The two
  \<^verbatim>\<open>FHE.allow\<close> calls write the access control list of the coprocessor, not the
  contract, and return the handle unchanged.
\<close>

definition stake_body :: "env \<Rightarrow> address \<Rightarrow> uint256 \<Rightarrow> state \<Rightarrow> error + uint256 \<times> state" where
  "stake_body ev sender val s =
     (if \<not> val > 0 then Inl ZeroAmount
      else
        let tid = nextTokenId s in
        if tid + 1 > MAX_UINT256 then Inl PanicArithmetic
        else
          let s1 = s\<lparr>nextTokenId := tid + 1\<rparr> in
          case safeMint ev sender tid s1 of
            Inl e \<Rightarrow> Inl e
          | Inr s2 \<Rightarrow>
              let encryptedAmount = asEuint256 ev val in
              Inr (tid, s2\<lparr>encryptedStakes := (encryptedStakes s2)(tid := encryptedAmount),
                           requestByToken := (requestByToken s2)(tid := 0),
                           isTokenPending := (isTokenPending s2)(tid := False)\<rparr>))"

definition stake :: "env \<Rightarrow> address \<Rightarrow> uint256 \<Rightarrow> state \<Rightarrow> error + uint256 \<times> state" where
  "stake ev sender val s =
     nonReentrant (stake_body ev sender val) (s\<lparr>ethBalance := ethBalance s + val\<rparr>)"

text \<open>\<^verbatim>\<open>getEncryptedStake(tokenId)\<close>, lines 63 to 67.\<close>

definition getEncryptedStake :: "state \<Rightarrow> uint256 \<Rightarrow> error + euint256" where
  "getEncryptedStake s tid =
     (let encryptedAmount = encryptedStakes s tid in
      if \<not> isInitialized encryptedAmount then Inl StakeNotFound else Inr encryptedAmount)"



text \<open>\<^verbatim>\<open>pendingRequestForToken(tokenId)\<close>, lines 83 to 88.\<close>

definition pendingRequestForToken :: "state \<Rightarrow> uint256 \<Rightarrow> uint256" where
  "pendingRequestForToken s tid = (if \<not> isTokenPending s tid then 0 else requestByToken s tid)"

text \<open>\<^verbatim>\<open>redeem(tokenId)\<close>, lines 100 to 124.\<close>

definition redeem_body :: "env \<Rightarrow> address \<Rightarrow> uint256 \<Rightarrow> state \<Rightarrow> error + uint256 \<times> state" where
  "redeem_body ev sender tid s =
     (let owner = owners s tid in
      if \<not> owner \<noteq> 0 then Inl InvalidCertificate
      else if \<not> isAuthorized s owner sender tid then Inl Unauthorized
      else if \<not> \<not> isTokenPending s tid then Inl RedemptionAlreadyPending
      else
        let encryptedAmount = encryptedStakes s tid in
        if \<not> isInitialized encryptedAmount then Inl StakeNotFound
        else
          let beneficiary = owner;
              ciphertexts = [toBytes32 encryptedAmount];
              s1 = s\<lparr>encryptedStakes := (encryptedStakes s)(tid := 0)\<rparr>
          in case burn tid s1 of
               Inl e \<Rightarrow> Inl e
             | Inr s2 \<Rightarrow>
                 (case requestDecryption ciphertexts s2 of
                    (requestId, s3) \<Rightarrow>
                      Inr (requestId,
                           s3\<lparr>pendingByRequest := (pendingByRequest s3)
                                (requestId := \<lparr>recipient = beneficiary, tokenId = tid,
                                               exists = True\<rparr>),
                              requestByToken := (requestByToken s3)(tid := requestId),
                              isTokenPending := (isTokenPending s3)(tid := True)\<rparr>)))"

definition redeem :: "env \<Rightarrow> address \<Rightarrow> uint256 \<Rightarrow> state \<Rightarrow> error + uint256 \<times> state" where
  "redeem ev sender tid s = nonReentrant (redeem_body ev sender tid) s"

text \<open>
  \<^verbatim>\<open>onDecryptionFulfilled(requestId, cleartexts, decryptionProof)\<close>, lines 131 to 156.
  \<open>clearPending\<close> is the three writes of lines 147 to 149, which precede the transfer.
\<close>

definition clearPending :: "uint256 \<Rightarrow> PendingWithdrawal \<Rightarrow> state \<Rightarrow> state" where
  "clearPending requestId pending s =
     s\<lparr>pendingByRequest := (pendingByRequest s)(requestId := noPending),
       isTokenPending := (isTokenPending s)(tokenId pending := False),
       requestByToken := (requestByToken s)(tokenId pending := 0)\<rparr>"

definition onDecryptionFulfilled_body :: "env \<Rightarrow> address \<Rightarrow> uint256 \<Rightarrow> bytes \<Rightarrow> bytes \<Rightarrow> state \<Rightarrow> error + bool \<times> state" where
  "onDecryptionFulfilled_body ev sender requestId cleartexts decryptionProof s =
     (if enforceOracleCheck ev \<and> \<not> sender = decryptionOracle ev then Inl InvalidOracle
      else
        let pending = pendingByRequest s requestId in
        if \<not> exists pending then Inl UnknownRequest
        else if \<not> checkSignatures ev requestId cleartexts decryptionProof s then Inl InvalidProof
        else case abi_decode_uint256 cleartexts of
               Inl e \<Rightarrow> Inl e
             | Inr amount \<Rightarrow>
                 (case call_value ev (recipient pending) amount
                         (clearPending requestId pending s) of
                    (success, s') \<Rightarrow>
                      if \<not> success then Inl TransferFailed else Inr (True, s')))"

definition onDecryptionFulfilled :: "env \<Rightarrow> address \<Rightarrow> uint256 \<Rightarrow> bytes \<Rightarrow> bytes \<Rightarrow> state \<Rightarrow> error + bool \<times> state" where
  "onDecryptionFulfilled ev sender requestId cleartexts decryptionProof s =
     nonReentrant (onDecryptionFulfilled_body ev sender requestId cleartexts decryptionProof) s"

subsection \<open>Transactions\<close>

text \<open>
  The external functions that write storage, with \<^verbatim>\<open>msg.sender\<close> first, and the
  state a transaction leaves behind: the state the function returns, or the state before
  the call when the function reverts. No transaction has \<^verbatim>\<open>address(0)\<close> as its
  sender (nobody holds its key), so such a call does not occur and leaves the state as it
  is.
\<close>

datatype call =
    Stake address uint256
  | Redeem address uint256
  | OnDecryptionFulfilled address uint256 bytes bytes
  | TransferFrom address address address uint256
  | SafeTransferFrom address address address uint256
  | Approve address address uint256
  | SetApprovalForAll address address bool

fun exec :: "env \<Rightarrow> state \<Rightarrow> call \<Rightarrow> state" where
  "exec ev s (Stake sender val) =
     (if sender = 0 then s else snd (transact (stake ev sender val) s))"
| "exec ev s (Redeem sender tid) =
     (if sender = 0 then s else snd (transact (redeem ev sender tid) s))"
| "exec ev s (OnDecryptionFulfilled sender requestId cleartexts decryptionProof) =
     (if sender = 0 then s
      else snd (transact (onDecryptionFulfilled ev sender requestId cleartexts decryptionProof) s))"
| "exec ev s (TransferFrom sender from to tid) =
     (if sender = 0 then s else snd (transact (transferFrom sender from to tid) s))"
| "exec ev s (SafeTransferFrom sender from to tid) =
     (if sender = 0 then s else snd (transact (safeTransferFrom ev sender from to tid) s))"
| "exec ev s (Approve sender to tid) =
     (if sender = 0 then s else snd (transact (approve sender to tid) s))"
| "exec ev s (SetApprovalForAll sender operator approved) =
     (if sender = 0 then s else snd (transact (setApprovalForAll sender operator approved) s))"

definition run :: "env \<Rightarrow> state \<Rightarrow> call list \<Rightarrow> state" where
  "run ev s cs = foldl (exec ev) s cs"


subsection \<open>Invariants\<close>

text \<open>
  What holds of the storage between transactions: it holds after the constructor and
  every transaction preserves it (proved below). The guard is not entered; the counter
  has not passed the largest \<^verbatim>\<open>uint256\<close> and every live certificate is below it; a
  certificate with a pending withdrawal has no owner; a certificate without an owner has
  no approved account, and \<^verbatim>\<open>address(0)\<close> has no operator; every pending withdrawal
  record sits under a request identifier that has been issued; and the per-owner
  enumeration is consistent with the owners: slot \<open>i\<close> of an owner, for \<open>i\<close> below
  the balance, holds a certificate of that owner whose index is \<open>i\<close>, and every live
  certificate sits in the slot its index names.
\<close>

definition ids_ok :: "state \<Rightarrow> bool" where
  "ids_ok s \<longleftrightarrow>
     nextTokenId s \<le> MAX_UINT256 \<and> (\<forall>t. owners s t \<noteq> 0 \<longrightarrow> t < nextTokenId s)"

definition enum_inv ::
  "(uint256 \<Rightarrow> address) \<Rightarrow> (address \<Rightarrow> uint256) \<Rightarrow> (address \<Rightarrow> uint256 \<Rightarrow> uint256) \<Rightarrow>
   (uint256 \<Rightarrow> uint256) \<Rightarrow> bool" where
  "enum_inv own bal toks idx \<longleftrightarrow>
     (\<forall>a i. a \<noteq> 0 \<longrightarrow> i < bal a \<longrightarrow> own (toks a i) = a \<and> idx (toks a i) = i) \<and>
     (\<forall>t. own t \<noteq> 0 \<longrightarrow> idx t < bal (own t) \<and> toks (own t) (idx t) = t)"

definition enum_ok :: "state \<Rightarrow> bool" where
  "enum_ok s \<longleftrightarrow> enum_inv (owners s) (balances s) (ownedTokens s) (ownedTokensIndex s)"

definition approvals_ok :: "state \<Rightarrow> bool" where
  "approvals_ok s \<longleftrightarrow>
     (\<forall>t. owners s t = 0 \<longrightarrow> tokenApprovals s t = 0) \<and> (\<forall>x. \<not> operatorApprovals s 0 x)"

definition requests_ok :: "state \<Rightarrow> bool" where
  "requests_ok s \<longleftrightarrow> (\<forall>r. exists (pendingByRequest s r) \<longrightarrow> r < counterRequest s)"

definition inv :: "state \<Rightarrow> bool" where
  "inv s \<longleftrightarrow>
     \<not> entered s \<and> ids_ok s \<and> enum_ok s \<and> approvals_ok s \<and> requests_ok s \<and>
     (\<forall>t. isTokenPending s t \<longrightarrow> owners s t = 0)"

subsection \<open>Assumptions on the capabilities\<close>



subsection \<open>A deployment\<close>

text \<open>
  The deploy script deploys the contract with the address of the decryption oracle (here
  99) and, outside the local test networks, with \<^verbatim>\<open>enforceOracle = true\<close>. The
  accounts of the scenarios below are externally owned: they accept ether and tokens. The
  coprocessor is represented by the handle \<open>v + 1\<close> for the value \<open>v\<close>, and the
  oracle by the proof \<open>[1]\<close> for the cleartext that encodes the plaintext of the
  single handle. \<open>enc8 b\<close> is the ABI encoding of a \<^verbatim>\<open>uint256\<close> below 256.
\<close>

definition liveEnv :: env where
  "liveEnv = \<lparr>decryptionOracle = 99, enforceOracleCheck = True,
     asEuint256 = (\<lambda>v. v + 1),
     verifySignatures = (\<lambda>hs ct pf.
        case hs of [h] \<Rightarrow> abi_decode_uint256 ct = Inr (h - 1) \<and> pf = [1] | _ \<Rightarrow> False),
     acceptsEther = (\<lambda>_. True), acceptsToken = (\<lambda>_. True),
     decrypt = (\<lambda>h. h - 1)\<rparr>"

definition enc8 :: "8 word \<Rightarrow> bytes" where
  "enc8 b = replicate 31 0 @ [b]"

subsection \<open>Scenarios\<close>

text \<open>
  Concrete runs of the deployment above, used to evaluate the theorems below.
\<close>

text \<open>The same environment with recipients that are contracts refusing plain ether.\<close>

definition rejectingEnv :: env where
  "rejectingEnv = liveEnv\<lparr>acceptsEther := \<lambda>_. False\<rparr>"


text \<open>Account 1 stakes 5 wei and receives certificate 1.\<close>

definition staked :: state where
  "staked = exec liveEnv init (Stake 1 5)"

text \<open>Account 1 redeems certificate 1: request 0 is pending.\<close>

definition redeeming :: state where
  "redeeming = exec liveEnv staked (Redeem 1 1)"

text \<open>The oracle answers request 0 with the cleartext 5.\<close>

definition released :: state where
  "released = exec liveEnv redeeming (OnDecryptionFulfilled 99 0 (enc8 5) [1])"

text \<open>Instead, account 1 approves account 2 for certificate 1,\<close>

definition tokenApproved :: state where
  "tokenApproved = exec liveEnv staked (Approve 1 2 1)"

text \<open>and account 2 redeems it,\<close>

definition redeemingByOperator :: state where
  "redeemingByOperator = exec liveEnv tokenApproved (Redeem 2 1)"

text \<open>and the oracle answers.\<close>

definition releasedToOwner :: state where
  "releasedToOwner = exec liveEnv redeemingByOperator (OnDecryptionFulfilled 99 0 (enc8 5) [1])"








section \<open>Auxiliary facts\<close>

subsection \<open>Decoding, frames of the token update, the callback unfolded\<close>

lemma foldl_zeros: "foldl (\<lambda>acc b. acc * 256 + unat b) 0 (replicate n (0::8 word)) = 0"
  by (induction n) simp_all

lemma decode_enc8: "abi_decode_uint256 (enc8 b) = Inr (unat b)"
  by (simp add: abi_decode_uint256_def enc8_def foldl_zeros)

lemmas registry_defs = update_def erc721_update_def removeTokenFromOwnerEnumeration_def
  addTokenToOwnerEnumeration_def

lemma update_frame:
  assumes "update to tid auth s = Inr (p, s')"
  shows "entered s' = entered s" "operatorApprovals s' = operatorApprovals s"
    "nextTokenId s' = nextTokenId s" "encryptedStakes s' = encryptedStakes s"
    "pendingByRequest s' = pendingByRequest s" "requestByToken s' = requestByToken s"
    "isTokenPending s' = isTokenPending s" "counterRequest s' = counterRequest s"
    "requestedHandles s' = requestedHandles s" "ethBalance s' = ethBalance s" "sent s' = sent s"
  using assms
  by (auto simp: registry_defs Let_def split: if_splits sum.splits prod.splits)

lemma update_owners:
  assumes "update to tid auth s = Inr (p, s')"
  shows "p = owners s tid" "owners s' = (owners s)(tid := to)"
    "tokenApprovals s' = (if p \<noteq> 0 then (tokenApprovals s)(tid := 0) else tokenApprovals s)"
    "auth \<noteq> 0 \<longrightarrow> isAuthorized s p auth tid"
  using assms
  by (auto simp: registry_defs Let_def split: if_splits sum.splits prod.splits)

lemma fulfill_unfold:
  "onDecryptionFulfilled ev sender rid ct pf s =
     (if entered s then Inl ReentrancyGuardReentrantCall
      else if enforceOracleCheck ev \<and> sender \<noteq> decryptionOracle ev then Inl InvalidOracle
      else if \<not> exists (pendingByRequest s rid) then Inl UnknownRequest
      else if \<not> checkSignatures ev rid ct pf s then Inl InvalidProof
      else case abi_decode_uint256 ct of
             Inl e \<Rightarrow> Inl e
           | Inr amount \<Rightarrow>
               if ethBalance s < amount \<or> \<not> acceptsEther ev (recipient (pendingByRequest s rid))
               then Inl TransferFailed
               else Inr (True, (clearPending rid (pendingByRequest s rid) s)
                     \<lparr>ethBalance := ethBalance s - amount,
                      sent := sent s @ [(recipient (pendingByRequest s rid), amount)]\<rparr>))"
  by (simp add: onDecryptionFulfilled_def nonReentrant_def onDecryptionFulfilled_body_def
      call_value_def clearPending_def checkSignatures_def Let_def split: sum.splits)

lemma clearPending_fields:
  "pendingByRequest (clearPending rid p s) = (pendingByRequest s)(rid := noPending)"
  "isTokenPending (clearPending rid p s) = (isTokenPending s)(tokenId p := False)"
  "requestByToken (clearPending rid p s) = (requestByToken s)(tokenId p := 0)"
  "entered (clearPending rid p s) = entered s"
  "sent (clearPending rid p s) = sent s"
  "ethBalance (clearPending rid p s) = ethBalance s"
  "counterRequest (clearPending rid p s) = counterRequest s"
  "requestedHandles (clearPending rid p s) = requestedHandles s"
  "owners (clearPending rid p s) = owners s"
  "encryptedStakes (clearPending rid p s) = encryptedStakes s"
  "nextTokenId (clearPending rid p s) = nextTokenId s"
  by (simp_all add: clearPending_def)

subsection \<open>The enumeration invariant under adding and removing a certificate\<close>

lemma enum_add:
  assumes inv: "enum_inv own bal toks idx" and free: "own tid = 0" and to: "to \<noteq> 0"
  shows "enum_inv (own(tid := to)) (bal(to := bal to + 1))
           (toks(to := (toks to)(bal to := tid))) (idx(tid := bal to))"
proof -
  have A: "\<And>a i. a \<noteq> 0 \<Longrightarrow> i < bal a \<Longrightarrow> own (toks a i) = a \<and> idx (toks a i) = i"
    and B: "\<And>t. own t \<noteq> 0 \<Longrightarrow> idx t < bal (own t) \<and> toks (own t) (idx t) = t"
    using inv by (auto simp: enum_inv_def)
  have slots: "(own(tid := to)) ((toks(to := (toks to)(bal to := tid))) a i) = a \<and>
               (idx(tid := bal to)) ((toks(to := (toks to)(bal to := tid))) a i) = i"
    if "a \<noteq> 0" and "i < (bal(to := bal to + 1)) a" for a i
  proof (cases "a = to \<and> i = bal to")
    case True
    then show ?thesis by simp
  next
    case False
    with that have "i < bal a" by (auto split: if_splits)
    with A[OF that(1)] have "own (toks a i) = a" and "idx (toks a i) = i" by auto
    moreover from this free that(1) have "toks a i \<noteq> tid" by auto
    ultimately show ?thesis using False by auto
  qed
  have toks: "(idx(tid := bal to)) t < (bal(to := bal to + 1)) ((own(tid := to)) t) \<and>
              (toks(to := (toks to)(bal to := tid))) ((own(tid := to)) t) ((idx(tid := bal to)) t) = t"
    if "(own(tid := to)) t \<noteq> 0" for t
  proof (cases "t = tid")
    case True
    then show ?thesis by simp
  next
    case False
    with that have "own t \<noteq> 0" by simp
    from B[OF this] False show ?thesis by auto
  qed
  show ?thesis
    unfolding enum_inv_def using slots toks by blast
qed

lemma enum_remove:
  assumes inv: "enum_inv own bal toks idx" and live: "own tid \<noteq> 0"
    and frm: "frm = own tid" and lst: "lst = bal frm - 1" and lastId: "lastId = toks frm lst"
  shows "enum_inv (own(tid := 0)) (bal(frm := lst))
           (toks(frm := ((toks frm)(idx tid := lastId))(lst := 0)))
           ((idx(lastId := idx tid))(tid := 0))"
    (is "enum_inv ?own ?bal ?toks ?idx")
proof -
  have A: "\<And>a i. a \<noteq> 0 \<Longrightarrow> i < bal a \<Longrightarrow> own (toks a i) = a \<and> idx (toks a i) = i"
    and B: "\<And>t. own t \<noteq> 0 \<Longrightarrow> idx t < bal (own t) \<and> toks (own t) (idx t) = t"
    using inv by (auto simp: enum_inv_def)
  have from0: "frm \<noteq> 0" using live by (simp add: frm)
  have ot: "own tid = frm" by (simp add: frm)
  have ti: "idx tid < bal frm" and tt: "toks frm (idx tid) = tid"
    using B[OF live] by (simp_all add: frm)
  then have lastlt: "lst < bal frm" and tile: "idx tid \<le> lst" by (simp_all add: lst)
  have lo: "own lastId = frm" and li: "idx lastId = lst"
    using A[OF from0 lastlt] by (simp_all add: lastId)
  have slots: "?own (?toks a i) = a \<and> ?idx (?toks a i) = i" if "a \<noteq> 0" and "i < ?bal a" for a i
  proof (cases "a = frm")
    case True
    with that have il: "i < lst" by simp
    then have ib: "i < bal frm" using lastlt by simp
    show ?thesis
    proof (cases "i = idx tid")
      case True
      with il li have "lastId \<noteq> tid" by auto
      with True il lo \<open>a = frm\<close> show ?thesis by simp
    next
      case False
      from A[OF from0 ib] have o: "own (toks frm i) = frm" and x: "idx (toks frm i) = i" by auto
      from x False have "toks frm i \<noteq> tid" by auto
      moreover from x il li have "toks frm i \<noteq> lastId" by auto
      ultimately show ?thesis using False il o x \<open>a = frm\<close> by simp
    qed
  next
    case False
    with that have ib: "i < bal a" by simp
    from A[OF that(1) ib] have o: "own (toks a i) = a" and x: "idx (toks a i) = i" by auto
    from o False ot have "toks a i \<noteq> tid" by auto
    moreover from o False lo have "toks a i \<noteq> lastId" by auto
    ultimately show ?thesis using False o x by simp
  qed
  have toks: "?idx t < ?bal (?own t) \<and> ?toks (?own t) (?idx t) = t" if "?own t \<noteq> 0" for t
  proof -
    from that have ne: "t \<noteq> tid" and ot': "own t \<noteq> 0" by (auto split: if_splits)
    from B[OF ot'] have it: "idx t < bal (own t)" and tk: "toks (own t) (idx t) = t" by auto
    show ?thesis
    proof (cases "own t = frm")
      case True
      show ?thesis
      proof (cases "t = lastId")
        case True
        with ne have "idx tid \<noteq> lst" using tt by (auto simp: lastId)
        with tile have "idx tid < lst" by simp
        with True ne lo show ?thesis by simp
      next
        case False
        have "idx t \<noteq> lst" using False tk \<open>own t = frm\<close> by (auto simp: lastId)
        moreover have "idx t \<noteq> idx tid" using ne tk tt \<open>own t = frm\<close> by auto
        moreover have "idx t < bal frm" using it \<open>own t = frm\<close> by simp
        then have "idx t \<le> lst" by (simp add: lst)
        ultimately have "idx t < lst" "idx t \<noteq> idx tid" by simp_all
        then show ?thesis using False ne tk \<open>own t = frm\<close> by simp
      qed
    next
      case False
      with lo have "t \<noteq> lastId" by auto
      with False ne it tk show ?thesis by simp
    qed
  qed
  show ?thesis
    unfolding enum_inv_def using slots toks by blast
qed

lemma bal_bound:
  assumes inv: "enum_inv own bal toks idx" and a: "a \<noteq> 0"
    and lim: "\<And>t. own t \<noteq> 0 \<Longrightarrow> t < n"
  shows "bal a \<le> n" and "t0 < n \<Longrightarrow> own t0 \<noteq> a \<Longrightarrow> bal a < n"
proof -
  have A: "\<And>i. i < bal a \<Longrightarrow> own (toks a i) = a \<and> idx (toks a i) = i"
    using inv a by (auto simp: enum_inv_def)
  have inj: "inj_on (toks a) {..<bal a}"
    by (rule inj_on_inverseI[where g = idx]) (simp add: A)
  have sub: "toks a ` {..<bal a} \<subseteq> {t. own t = a}"
    using A by auto
  have card: "card (toks a ` {..<bal a}) = bal a"
    using inj by (simp add: card_image)
  have "toks a ` {..<bal a} \<subseteq> {..<n}" using sub lim a by auto
  then have "card (toks a ` {..<bal a}) \<le> card {..<n}" by (intro card_mono) auto
  then show "bal a \<le> n" using card by simp
  assume t0: "t0 < n" "own t0 \<noteq> a"
  have "toks a ` {..<bal a} \<subseteq> {..<n} - {t0}" using sub lim a t0 by auto
  then have "card (toks a ` {..<bal a}) \<le> card ({..<n} - {t0})" by (intro card_mono) auto
  also have "\<dots> = n - 1" using t0 by simp
  finally show "bal a < n" using card t0 by simp
qed

subsection \<open>What the token update writes\<close>

lemma unchecked_inc_eq: "x < MAX_UINT256 \<Longrightarrow> unchecked_inc x = x + 1"
  by (simp add: unchecked_inc_def MAX_UINT256_def)

lemma unchecked_dec_eq: "1 \<le> x \<Longrightarrow> x \<le> MAX_UINT256 \<Longrightarrow> unchecked_dec x = x - 1"
proof -
  assume a: "1 \<le> x" "x \<le> MAX_UINT256"
  then obtain y where y: "x = Suc y" by (cases x) auto
  with a have "y < 2 ^ 256" by (simp add: MAX_UINT256_def)
  then have "(y + 2 ^ 256) mod 2 ^ 256 = y" by simp
  then show ?thesis by (simp add: unchecked_dec_def y)
qed

lemma removeTokenFromOwnerEnumeration_fields:
  "owners (removeTokenFromOwnerEnumeration frm tid s) = owners s"
  "balances (removeTokenFromOwnerEnumeration frm tid s) = balances s"
  "ownedTokens (removeTokenFromOwnerEnumeration frm tid s) =
     (if ownedTokensIndex s tid \<noteq> balances s frm
      then (ownedTokens s)(frm := ((ownedTokens s frm)
              (ownedTokensIndex s tid := ownedTokens s frm (balances s frm)))(balances s frm := 0))
      else (ownedTokens s)(frm := (ownedTokens s frm)(balances s frm := 0)))"
  "ownedTokensIndex (removeTokenFromOwnerEnumeration frm tid s) =
     (if ownedTokensIndex s tid \<noteq> balances s frm
      then ((ownedTokensIndex s)(ownedTokens s frm (balances s frm) := ownedTokensIndex s tid))(tid := 0)
      else (ownedTokensIndex s)(tid := 0))"
  by (simp_all add: removeTokenFromOwnerEnumeration_def Let_def)

lemma addTokenToOwnerEnumeration_Inr:
  assumes "addTokenToOwnerEnumeration to tid s = Inr s'"
  shows "1 \<le> balances s to" "owners s' = owners s" "balances s' = balances s"
    "ownedTokens s' = (ownedTokens s)(to := (ownedTokens s to)(balances s to - 1 := tid))"
    "ownedTokensIndex s' = (ownedTokensIndex s)(tid := balances s to - 1)"
  using assms by (auto simp: addTokenToOwnerEnumeration_def Let_def split: if_splits)

lemma erc721_update_Inr:
  assumes "erc721_update to tid auth s = Inr (p, s1)"
  shows "p = owners s tid" "owners s1 = (owners s)(tid := to)"
    "ownedTokens s1 = ownedTokens s" "ownedTokensIndex s1 = ownedTokensIndex s"
    "balances s1 =
       (if to \<noteq> 0
        then (if p \<noteq> 0 then (balances s)(p := unchecked_dec (balances s p)) else balances s)
               (to := unchecked_inc ((if p \<noteq> 0 then (balances s)(p := unchecked_dec (balances s p))
                                      else balances s) to))
        else (if p \<noteq> 0 then (balances s)(p := unchecked_dec (balances s p)) else balances s))"
  using assms by (auto simp: erc721_update_def Let_def split: if_splits)

lemma update_Inr:
  assumes "update to tid auth s = Inr (p, s')"
  shows "\<exists>s1. erc721_update to tid auth s = Inr (p, s1) \<and>
    (p = 0 \<longrightarrow> to = 0 \<longrightarrow> s' = s1) \<and>
    (p \<noteq> 0 \<longrightarrow> to = 0 \<longrightarrow> s' = removeTokenFromOwnerEnumeration p tid s1) \<and>
    (p = 0 \<longrightarrow> to \<noteq> 0 \<longrightarrow> addTokenToOwnerEnumeration to tid s1 = Inr s') \<and>
    (p \<noteq> 0 \<longrightarrow> to \<noteq> 0 \<longrightarrow> p \<noteq> to \<longrightarrow>
           addTokenToOwnerEnumeration to tid (removeTokenFromOwnerEnumeration p tid s1) = Inr s') \<and>
    (p \<noteq> 0 \<longrightarrow> p = to \<longrightarrow> s' = s1)"
proof (cases "erc721_update to tid auth s")
  case (Inl e)
  with assms show ?thesis by (simp add: update_def)
next
  case (Inr r)
  obtain q s1 where r: "r = (q, s1)" by (cases r)
  show ?thesis
    using assms unfolding update_def Inr r
    by (auto simp: Let_def split: if_splits sum.splits)
qed

lemma update_preserves:
  assumes e: "enum_ok s" and i: "ids_ok s" and lt: "tid < nextTokenId s"
    and u: "update to tid auth s = Inr (p, s')"
  shows "enum_ok s' \<and> ids_ok s'"
proof -
  let ?own = "owners s" and ?bal = "balances s" and ?toks = "ownedTokens s"
    and ?idx = "ownedTokensIndex s"
  let ?frm = "owners s tid"
  have ei: "enum_inv ?own ?bal ?toks ?idx" using e by (simp add: enum_ok_def)
  have B: "\<And>t. ?own t \<noteq> 0 \<Longrightarrow> ?idx t < ?bal (?own t) \<and> ?toks (?own t) (?idx t) = t"
    using ei by (auto simp: enum_inv_def)
  have p: "p = ?frm" and own': "owners s' = ?own(tid := to)"
    using update_owners[OF u] by simp_all
  have nxt: "nextTokenId s' = nextTokenId s" using update_frame[OF u] by simp
  have lim: "\<And>t. ?own t \<noteq> 0 \<Longrightarrow> t < nextTokenId s" and mx: "nextTokenId s \<le> MAX_UINT256"
    using i by (auto simp: ids_ok_def)
  have ids: "ids_ok s'"
    using i lt by (auto simp: ids_ok_def own' nxt)
  have le: "?bal a \<le> MAX_UINT256" if "a \<noteq> 0" for a
    using bal_bound(1)[OF ei that lim] mx by simp
  have less: "?bal a < MAX_UINT256" if "a \<noteq> 0" "?frm \<noteq> a" for a
    using bal_bound(2)[OF ei that(1) lim lt that(2)] mx by simp
  have ge: "1 \<le> ?bal ?frm" if "?frm \<noteq> 0"
    using B[OF that] by simp
  from u obtain s1 where b: "erc721_update to tid auth s = Inr (p, s1)"
    and c_none: "p = 0 \<Longrightarrow> to = 0 \<Longrightarrow> s' = s1"
    and c_burn: "p \<noteq> 0 \<Longrightarrow> to = 0 \<Longrightarrow> s' = removeTokenFromOwnerEnumeration p tid s1"
    and c_mint: "p = 0 \<Longrightarrow> to \<noteq> 0 \<Longrightarrow> addTokenToOwnerEnumeration to tid s1 = Inr s'"
    and c_move: "p \<noteq> 0 \<Longrightarrow> to \<noteq> 0 \<Longrightarrow> p \<noteq> to \<Longrightarrow>
           addTokenToOwnerEnumeration to tid (removeTokenFromOwnerEnumeration p tid s1) = Inr s'"
    and c_self: "p \<noteq> 0 \<Longrightarrow> p = to \<Longrightarrow> s' = s1"
    using update_Inr[OF u] by blast
  note f1 = erc721_update_Inr[OF b]
  consider (mint) "?frm = 0" "to \<noteq> 0" | (burn) "?frm \<noteq> 0" "to = 0"
    | (move) "?frm \<noteq> 0" "to \<noteq> 0" "?frm \<noteq> to" | (self) "?frm \<noteq> 0" "to = ?frm"
    | (none) "?frm = 0" "to = 0"
    by blast
  then have "enum_ok s'"
  proof cases
    case mint
    have inc: "unchecked_inc (?bal to) = ?bal to + 1"
      using less[of to] mint by (simp add: unchecked_inc_eq)
    note a = addTokenToOwnerEnumeration_Inr[OF c_mint[OF mint[unfolded p[symmetric]]]]
    have "balances s' = ?bal(to := ?bal to + 1)"
      "ownedTokens s' = ?toks(to := (?toks to)(?bal to := tid))"
      "ownedTokensIndex s' = ?idx(tid := ?bal to)"
      using a f1 mint inc p by simp_all
    with enum_add[OF ei mint] own' show ?thesis by (simp add: enum_ok_def)
  next
    case burn
    have dec: "unchecked_dec (?bal ?frm) = ?bal ?frm - 1"
      using ge le[of ?frm] burn by (simp add: unchecked_dec_eq)
    have r: "enum_inv (?own(tid := 0)) (?bal(?frm := ?bal ?frm - 1))
           (?toks(?frm := ((?toks ?frm)(?idx tid := ?toks ?frm (?bal ?frm - 1)))(?bal ?frm - 1 := 0)))
           ((?idx(?toks ?frm (?bal ?frm - 1) := ?idx tid))(tid := 0))"
      by (rule enum_remove[OF ei burn(1)]) simp_all
    have triv: "?idx tid = ?bal ?frm - 1 \<Longrightarrow> ?toks ?frm (?bal ?frm - 1) = tid"
      using B[OF burn(1)] by auto
    have s': "s' = removeTokenFromOwnerEnumeration p tid s1"
      using c_burn burn p by simp
    have "balances s' = ?bal(?frm := ?bal ?frm - 1)"
      "ownedTokens s' = ?toks(?frm := ((?toks ?frm)(?idx tid := ?toks ?frm (?bal ?frm - 1)))(?bal ?frm - 1 := 0))"
      "ownedTokensIndex s' = (?idx(?toks ?frm (?bal ?frm - 1) := ?idx tid))(tid := 0)"
      using f1 burn dec triv p
      by (auto simp: s' removeTokenFromOwnerEnumeration_fields)
    with r own' burn show ?thesis by (simp add: enum_ok_def)
  next
    case move
    have dec: "unchecked_dec (?bal ?frm) = ?bal ?frm - 1"
      using ge le[of ?frm] move by (simp add: unchecked_dec_eq)
    have inc: "unchecked_inc (?bal to) = ?bal to + 1"
      using less[of to] move by (simp add: unchecked_inc_eq)
    have r: "enum_inv (?own(tid := 0)) (?bal(?frm := ?bal ?frm - 1))
           (?toks(?frm := ((?toks ?frm)(?idx tid := ?toks ?frm (?bal ?frm - 1)))(?bal ?frm - 1 := 0)))
           ((?idx(?toks ?frm (?bal ?frm - 1) := ?idx tid))(tid := 0))"
      (is "enum_inv ?own1 ?bal1 ?toks1 ?idx1")
      by (rule enum_remove[OF ei move(1)]) simp_all
    have a: "enum_inv (?own1(tid := to)) (?bal1(to := ?bal1 to + 1))
           (?toks1(to := (?toks1 to)(?bal1 to := tid))) (?idx1(tid := ?bal1 to))"
      by (rule enum_add[OF r _ move(2)]) simp
    have triv: "?idx tid = ?bal ?frm - 1 \<Longrightarrow> ?toks ?frm (?bal ?frm - 1) = tid"
      using B[OF move(1)] by auto
    have m: "addTokenToOwnerEnumeration to tid (removeTokenFromOwnerEnumeration p tid s1) = Inr s'"
      using c_move move p by simp
    note ad = addTokenToOwnerEnumeration_Inr[OF m]
    have "balances s' = ?bal1(to := ?bal1 to + 1)"
      "ownedTokens s' = ?toks1(to := (?toks1 to)(?bal1 to := tid))"
      "ownedTokensIndex s' = ?idx1(tid := ?bal1 to)"
      using f1 move dec inc triv p
      by (auto simp: ad removeTokenFromOwnerEnumeration_fields)
    with a own' show ?thesis by (simp add: enum_ok_def)
  next
    case self
    have dec: "unchecked_dec (?bal ?frm) = ?bal ?frm - 1"
      using ge le[of ?frm] self by (simp add: unchecked_dec_eq)
    have inc: "unchecked_inc (?bal ?frm - 1) = ?bal ?frm"
      using ge le[of ?frm] self by (simp add: unchecked_inc_eq)
    have s': "s' = s1" using c_self self p by simp
    have "balances s' = ?bal" "ownedTokens s' = ?toks" "ownedTokensIndex s' = ?idx"
      using f1 self dec inc p by (auto simp: s')
    moreover have "owners s' = ?own" using own' self by auto
    ultimately show ?thesis using e by (simp add: enum_ok_def)
  next
    case none
    have s': "s' = s1" using c_none none p by simp
    have "balances s' = ?bal" "ownedTokens s' = ?toks" "ownedTokensIndex s' = ?idx"
      using f1 none p by (auto simp: s')
    moreover have "owners s' = ?own" using own' none by auto
    ultimately show ?thesis using e by (simp add: enum_ok_def)
  qed
  with ids show ?thesis by simp
qed

subsection \<open>Every transaction preserves the invariant\<close>

lemma update_approvals:
  assumes a: "approvals_ok s" and u: "update to tid auth s = Inr (p, s')"
  shows "approvals_ok s'"
  using a update_owners[OF u] update_frame(2)[OF u]
  by (auto simp: approvals_ok_def)

lemma stake_Inr:
  assumes "stake ev sender val s = Inr (tid, s')"
  shows "\<exists>s2. update sender tid 0
            (s\<lparr>ethBalance := ethBalance s + val, entered := True, nextTokenId := tid + 1\<rparr>) = Inr (0, s2) \<and>
          s' = s2\<lparr>encryptedStakes := (encryptedStakes s2)(tid := asEuint256 ev val),
                  requestByToken := (requestByToken s2)(tid := 0),
                  isTokenPending := (isTokenPending s2)(tid := False), entered := False\<rparr>"
    and "\<not> entered s" and "val > 0" and "tid = nextTokenId s" and "tid + 1 \<le> MAX_UINT256"
    and "sender \<noteq> 0" and "acceptsToken ev sender"
  using assms
  by (auto simp: stake_def nonReentrant_def stake_body_def safeMint_def mint_def Let_def
      split: if_splits sum.splits prod.splits)

lemma stake_fields:
  assumes st: "stake ev sender val s = Inr (tid, s')"
  shows "owners s tid = 0" "owners s' = (owners s)(tid := sender)"
    "nextTokenId s' = tid + 1"
    "encryptedStakes s' = (encryptedStakes s)(tid := asEuint256 ev val)"
    "requestByToken s' = (requestByToken s)(tid := 0)"
    "isTokenPending s' = (isTokenPending s)(tid := False)"
    "pendingByRequest s' = pendingByRequest s" "counterRequest s' = counterRequest s"
    "requestedHandles s' = requestedHandles s" "ethBalance s' = ethBalance s + val"
    "sent s' = sent s" "\<not> entered s'" "operatorApprovals s' = operatorApprovals s"
    "tokenApprovals s' = tokenApprovals s"
proof -
  from stake_Inr(1)[OF st] obtain s2 where
    u: "update sender tid 0
            (s\<lparr>ethBalance := ethBalance s + val, entered := True, nextTokenId := tid + 1\<rparr>) = Inr (0, s2)"
    and s': "s' = s2\<lparr>encryptedStakes := (encryptedStakes s2)(tid := asEuint256 ev val),
                  requestByToken := (requestByToken s2)(tid := 0),
                  isTokenPending := (isTokenPending s2)(tid := False), entered := False\<rparr>"
    by blast
  note f = update_frame[OF u] and o = update_owners[OF u]
  show "owners s tid = 0" using o(1) by simp
  show "owners s' = (owners s)(tid := sender)" using o(2) by (simp add: s')
  show "nextTokenId s' = tid + 1" using f(3) by (simp add: s')
  show "encryptedStakes s' = (encryptedStakes s)(tid := asEuint256 ev val)" using f(4) by (simp add: s')
  show "requestByToken s' = (requestByToken s)(tid := 0)" using f(6) by (simp add: s')
  show "isTokenPending s' = (isTokenPending s)(tid := False)" using f(7) by (simp add: s')
  show "pendingByRequest s' = pendingByRequest s" using f(5) by (simp add: s')
  show "counterRequest s' = counterRequest s" using f(8) by (simp add: s')
  show "requestedHandles s' = requestedHandles s" using f(9) by (simp add: s')
  show "ethBalance s' = ethBalance s + val" using f(10) by (simp add: s')
  show "sent s' = sent s" using f(11) by (simp add: s')
  show "\<not> entered s'" by (simp add: s')
  show "operatorApprovals s' = operatorApprovals s" using f(2) by (simp add: s')
  show "tokenApprovals s' = tokenApprovals s" using o(3) by (simp add: s')
qed

lemma inv_stake:
  assumes i: "inv s" and st: "stake ev sender val s = Inr (tid, s')"
  shows "inv s'"
proof -
  let ?s1 = "s\<lparr>ethBalance := ethBalance s + val, entered := True, nextTokenId := tid + 1\<rparr>"
  from stake_Inr(1)[OF st] obtain s2 where
    u: "update sender tid 0 ?s1 = Inr (0, s2)"
    and s': "s' = s2\<lparr>encryptedStakes := (encryptedStakes s2)(tid := asEuint256 ev val),
                  requestByToken := (requestByToken s2)(tid := 0),
                  isTokenPending := (isTokenPending s2)(tid := False), entered := False\<rparr>"
    by blast
  note facts = stake_Inr(2-)[OF st]
  have "enum_ok ?s1" using i by (simp add: inv_def enum_ok_def)
  moreover have "ids_ok ?s1" using i facts by (auto simp: inv_def ids_ok_def intro: less_SucI)
  moreover have "tid < nextTokenId ?s1" by simp
  ultimately have "enum_ok s2 \<and> ids_ok s2" using u by (rule update_preserves)
  then have "enum_ok s'" "ids_ok s'" by (simp_all add: s' enum_ok_def ids_ok_def)
  moreover have "approvals_ok ?s1" using i by (simp add: inv_def approvals_ok_def)
  then have "approvals_ok s2" using u by (rule update_approvals)
  then have "approvals_ok s'" by (simp add: s' approvals_ok_def)
  moreover have "\<forall>t. isTokenPending s' t \<longrightarrow> owners s' t = 0"
    using i stake_fields[OF st] by (auto simp: inv_def)
  moreover have "requests_ok s'"
    using i stake_fields(7,8)[OF st] by (simp add: inv_def requests_ok_def)
  ultimately show ?thesis using stake_fields(12)[OF st] by (simp add: inv_def)
qed

lemma redeem_Inr:
  assumes "redeem ev sender tid s = Inr (rid, s')"
  shows "\<exists>s2. update 0 tid 0
            (s\<lparr>entered := True, encryptedStakes := (encryptedStakes s)(tid := 0)\<rparr>) =
              Inr (owners s tid, s2) \<and>
          s' = s2\<lparr>requestedHandles := (requestedHandles s2)(rid := [encryptedStakes s tid]),
                  counterRequest := rid + 1,
                  pendingByRequest := (pendingByRequest s2)
                    (rid := \<lparr>recipient = owners s tid, tokenId = tid, exists = True\<rparr>),
                  requestByToken := (requestByToken s2)(tid := rid),
                  isTokenPending := (isTokenPending s2)(tid := True), entered := False\<rparr> \<and>
          rid = counterRequest s2"
    and "\<not> entered s" and "owners s tid \<noteq> 0" and "isAuthorized s (owners s tid) sender tid"
    and "\<not> isTokenPending s tid" and "encryptedStakes s tid \<noteq> 0"
  using assms
  by (auto simp: redeem_def nonReentrant_def redeem_body_def burn_def requestDecryption_def
      isInitialized_def toBytes32_def isAuthorized_def isApprovedForAll_def Let_def
      dest: update_owners(1)
      split: if_splits sum.splits prod.splits)

lemma redeem_fields:
  assumes rd: "redeem ev sender tid s = Inr (rid, s')"
  shows "counterRequest s = rid" "counterRequest s' = rid + 1"
    "owners s' = (owners s)(tid := 0)"
    "nextTokenId s' = nextTokenId s"
    "encryptedStakes s' = (encryptedStakes s)(tid := 0)"
    "requestByToken s' = (requestByToken s)(tid := rid)"
    "isTokenPending s' = (isTokenPending s)(tid := True)"
    "pendingByRequest s' = (pendingByRequest s)
        (rid := \<lparr>recipient = owners s tid, tokenId = tid, exists = True\<rparr>)"
    "requestedHandles s' = (requestedHandles s)(rid := [encryptedStakes s tid])"
    "ethBalance s' = ethBalance s"
    "sent s' = sent s" "\<not> entered s'" "operatorApprovals s' = operatorApprovals s"
proof -
  let ?s1 = "s\<lparr>entered := True, encryptedStakes := (encryptedStakes s)(tid := 0)\<rparr>"
  from redeem_Inr(1)[OF rd] obtain s2 where
    u: "update 0 tid 0 ?s1 = Inr (owners s tid, s2)"
    and s': "s' = s2\<lparr>requestedHandles := (requestedHandles s2)(rid := [encryptedStakes s tid]),
                  counterRequest := rid + 1,
                  pendingByRequest := (pendingByRequest s2)
                    (rid := \<lparr>recipient = owners s tid, tokenId = tid, exists = True\<rparr>),
                  requestByToken := (requestByToken s2)(tid := rid),
                  isTokenPending := (isTokenPending s2)(tid := True), entered := False\<rparr>"
    and rid: "rid = counterRequest s2"
    by blast
  note f = update_frame[OF u] and o = update_owners[OF u]
  show "counterRequest s = rid" using f(8) rid by simp
  show "counterRequest s' = rid + 1" by (simp add: s')
  show "owners s' = (owners s)(tid := 0)" using o(2) by (simp add: s')
  show "nextTokenId s' = nextTokenId s" using f(3) by (simp add: s')
  show "encryptedStakes s' = (encryptedStakes s)(tid := 0)" using f(4) by (simp add: s')
  show "requestByToken s' = (requestByToken s)(tid := rid)" using f(6) by (simp add: s')
  show "isTokenPending s' = (isTokenPending s)(tid := True)" using f(7) by (simp add: s')
  show "pendingByRequest s' = (pendingByRequest s)
        (rid := \<lparr>recipient = owners s tid, tokenId = tid, exists = True\<rparr>)"
    using f(5) by (simp add: s')
  show "requestedHandles s' = (requestedHandles s)(rid := [encryptedStakes s tid])"
    using f(9) by (simp add: s')
  show "ethBalance s' = ethBalance s" using f(10) by (simp add: s')
  show "sent s' = sent s" using f(11) by (simp add: s')
  show "\<not> entered s'" by (simp add: s')
  show "operatorApprovals s' = operatorApprovals s" using f(2) by (simp add: s')
qed

lemma inv_redeem:
  assumes i: "inv s" and rd: "redeem ev sender tid s = Inr (rid, s')"
  shows "inv s'"
proof -
  let ?s1 = "s\<lparr>entered := True, encryptedStakes := (encryptedStakes s)(tid := 0)\<rparr>"
  from redeem_Inr(1)[OF rd] obtain s2 where
    u: "update 0 tid 0 ?s1 = Inr (owners s tid, s2)"
    and s': "s' = s2\<lparr>requestedHandles := (requestedHandles s2)(rid := [encryptedStakes s tid]),
                  counterRequest := rid + 1,
                  pendingByRequest := (pendingByRequest s2)
                    (rid := \<lparr>recipient = owners s tid, tokenId = tid, exists = True\<rparr>),
                  requestByToken := (requestByToken s2)(tid := rid),
                  isTokenPending := (isTokenPending s2)(tid := True), entered := False\<rparr>"
    by blast
  note facts = redeem_Inr(2-)[OF rd]
  have "enum_ok ?s1" using i by (simp add: inv_def enum_ok_def)
  moreover have "ids_ok ?s1" using i by (auto simp: inv_def ids_ok_def)
  moreover have "tid < nextTokenId ?s1" using i facts by (auto simp: inv_def ids_ok_def)
  ultimately have "enum_ok s2 \<and> ids_ok s2" using u by (rule update_preserves)
  then have "enum_ok s'" "ids_ok s'" by (simp_all add: s' enum_ok_def ids_ok_def)
  moreover have "approvals_ok ?s1" using i by (simp add: inv_def approvals_ok_def)
  then have "approvals_ok s2" using u by (rule update_approvals)
  then have "approvals_ok s'" by (simp add: s' approvals_ok_def)
  moreover have "\<forall>t. isTokenPending s' t \<longrightarrow> owners s' t = 0"
    using i redeem_fields[OF rd] by (auto simp: inv_def)
  moreover have "requests_ok s'"
    using i redeem_fields(1,2,8)[OF rd] by (auto simp: inv_def requests_ok_def intro: less_SucI)
  ultimately show ?thesis using redeem_fields(12)[OF rd] by (simp add: inv_def)
qed

lemma inv_fulfill:
  assumes i: "inv s" and fu: "onDecryptionFulfilled ev sender rid ct pf s = Inr (b, s')"
  shows "inv s'"
  using assms
  by (auto simp: fulfill_unfold inv_def ids_ok_def enum_ok_def approvals_ok_def clearPending_def
      requests_ok_def noPending_def split: if_splits sum.splits)

lemma inv_transferFrom:
  assumes i: "inv s" and sender: "sender \<noteq> 0"
    and tr: "transferFrom sender from to tid s = Inr (r, s')"
  shows "inv s'"
proof -
  from tr have to: "to \<noteq> 0" and u: "update to tid sender s = Inr (from, s')"
    by (auto simp: transferFrom_def split: if_splits sum.splits prod.splits)
  note f = update_frame[OF u] and o = update_owners[OF u]
  have auth: "isAuthorized s (owners s tid) sender tid" using o sender by simp
  have live: "owners s tid \<noteq> 0"
  proof
    assume "owners s tid = 0"
    with auth i sender show False by (auto simp: isAuthorized_def isApprovedForAll_def inv_def approvals_ok_def)
  qed
  have "enum_ok s" "ids_ok s" "tid < nextTokenId s" using i live by (auto simp: inv_def ids_ok_def)
  then have "enum_ok s' \<and> ids_ok s'" using u by (rule update_preserves)
  moreover have "approvals_ok s'" using i u by (auto simp: inv_def intro: update_approvals)
  moreover have "\<forall>t. isTokenPending s' t \<longrightarrow> owners s' t = 0"
    using i live f o by (auto simp: inv_def)
  moreover have "requests_ok s'" using i f by (simp add: inv_def requests_ok_def)
  ultimately show ?thesis using i f by (simp add: inv_def)
qed

lemma inv_approve:
  assumes i: "inv s" and ap: "approve sender to tid s = Inr (r, s')"
  shows "inv s'"
  using assms
  by (auto simp: approve_def inv_def ids_ok_def enum_ok_def approvals_ok_def requests_ok_def
      Let_def split: if_splits)

lemma inv_setApprovalForAll:
  assumes i: "inv s" and sender: "sender \<noteq> 0"
    and ap: "setApprovalForAll sender operator approved s = Inr (r, s')"
  shows "inv s'"
  using assms
  by (auto simp: setApprovalForAll_def inv_def ids_ok_def enum_ok_def approvals_ok_def
      requests_ok_def split: if_splits)

lemma inv_exec: "inv s \<Longrightarrow> inv (exec ev s c)"
proof (cases c)
  case (Stake sender val)
  assume "inv s"
  then show ?thesis using Stake inv_stake
    by (auto simp: transact_def split: sum.splits)
next
  case (Redeem sender tid)
  assume "inv s"
  then show ?thesis using Redeem inv_redeem
    by (auto simp: transact_def split: sum.splits)
next
  case (OnDecryptionFulfilled sender rid ct pf)
  assume "inv s"
  then show ?thesis using OnDecryptionFulfilled inv_fulfill
    by (auto simp: transact_def split: sum.splits)
next
  case (TransferFrom sender frm to tid)
  assume "inv s"
  then show ?thesis using TransferFrom inv_transferFrom
    by (auto simp: transact_def split: sum.splits)
next
  case (SafeTransferFrom sender frm to tid)
  assume "inv s"
  then show ?thesis using SafeTransferFrom inv_transferFrom
    by (auto simp: transact_def safeTransferFrom_def split: sum.splits if_splits)
next
  case (Approve sender to tid)
  assume "inv s"
  then show ?thesis using Approve inv_approve
    by (auto simp: transact_def split: sum.splits)
next
  case (SetApprovalForAll sender operator approved)
  assume "inv s"
  then show ?thesis using SetApprovalForAll inv_setApprovalForAll
    by (auto simp: transact_def split: sum.splits)
qed

lemma inv_run: "inv s \<Longrightarrow> inv (run ev s cs)"
  unfolding run_def by (induction cs arbitrary: s) (simp_all add: inv_exec)

lemma inv_init: "inv init"
  by (simp add: inv_def ids_ok_def enum_ok_def enum_inv_def approvals_ok_def requests_ok_def
      noPending_def init_def MAX_UINT256_def)

lemma inv_reachable: "inv (run ev init cs)"
  by (rule inv_run[OF inv_init])

subsection \<open>When stake and redeem succeed; the cases of a transaction\<close>

lemma update_mint_succeeds:
  assumes "owners s tid = 0" and "to \<noteq> 0" and "balances s to < MAX_UINT256"
  shows "\<exists>s'. update to tid 0 s = Inr (0, s')"
  using assms by (simp add: registry_defs unchecked_inc_eq Let_def)

lemma update_burn_succeeds: "\<exists>s'. update 0 tid 0 s = Inr (owners s tid, s')"
  by (simp add: update_def erc721_update_def Let_def)

lemma inv_balance_le:
  assumes "enum_ok s" and "ids_ok s" and "a \<noteq> 0"
  shows "balances s a \<le> nextTokenId s"
  using bal_bound(1)[of "owners s" "balances s" "ownedTokens s" "ownedTokensIndex s" a "nextTokenId s"] assms
  by (auto simp: enum_ok_def ids_ok_def)

lemma stake_succeeds:
  assumes i: "inv s" and v: "val > 0" and sn: "sender \<noteq> 0" and acc: "acceptsToken ev sender"
    and lt: "nextTokenId s < MAX_UINT256"
  shows "\<exists>s'. stake ev sender val s = Inr (nextTokenId s, s')"
proof -
  let ?tid = "nextTokenId s"
  let ?s1 = "s\<lparr>ethBalance := ethBalance s + val, entered := True, nextTokenId := ?tid + 1\<rparr>"
  have free: "owners ?s1 ?tid = 0" using i by (auto simp: inv_def ids_ok_def)
  have "balances s sender \<le> nextTokenId s"
    using i sn by (intro inv_balance_le) (simp_all add: inv_def)
  then have "balances ?s1 sender < MAX_UINT256" using lt by simp
  from update_mint_succeeds[OF free sn this] obtain s2 where
    "update sender ?tid 0 ?s1 = Inr (0, s2)" by blast
  then show ?thesis using i v acc lt sn
    by (simp add: stake_def nonReentrant_def stake_body_def safeMint_def mint_def inv_def Let_def)
qed

lemma redeem_succeeds:
  assumes i: "inv s" and live: "owners s tid \<noteq> 0"
    and auth: "isAuthorized s (owners s tid) sender tid"
    and st: "encryptedStakes s tid \<noteq> 0"
  shows "\<exists>s'. redeem ev sender tid s = Inr (counterRequest s, s')"
proof -
  let ?s1 = "s\<lparr>entered := True, encryptedStakes := (encryptedStakes s)(tid := 0)\<rparr>"
  from update_burn_succeeds[of tid ?s1] obtain s2 where
    u: "update 0 tid 0 ?s1 = Inr (owners s tid, s2)" by auto
  have np: "\<not> isTokenPending s tid" using i live by (auto simp: inv_def)
  have "counterRequest s2 = counterRequest s" using update_frame(8)[OF u] by simp
  then show ?thesis using i live auth st np u
    by (simp add: redeem_def nonReentrant_def redeem_body_def burn_def requestDecryption_def
        isInitialized_def toBytes32_def isAuthorized_def isApprovedForAll_def inv_def Let_def)
qed

lemma exec_stake:
  "sender \<noteq> 0 \<Longrightarrow> stake ev sender val s = Inr (tid, s') \<Longrightarrow> exec ev s (Stake sender val) = s'"
  by (simp add: transact_def)

lemma exec_redeem:
  "sender \<noteq> 0 \<Longrightarrow> redeem ev sender tid s = Inr (rid, s') \<Longrightarrow> exec ev s (Redeem sender tid) = s'"
  by (simp add: transact_def)

lemma exec_fulfill:
  "sender \<noteq> 0 \<Longrightarrow> onDecryptionFulfilled ev sender rid ct pf s = Inr (b, s') \<Longrightarrow>
     exec ev s (OnDecryptionFulfilled sender rid ct pf) = s'"
  by (simp add: transact_def)

lemma transferFrom_frame:
  assumes "transferFrom sender frm to tid s = Inr (r, s')"
  shows "nextTokenId s' = nextTokenId s" "encryptedStakes s' = encryptedStakes s"
    "pendingByRequest s' = pendingByRequest s" "counterRequest s' = counterRequest s"
    "requestedHandles s' = requestedHandles s" "owners s' = (owners s)(tid := to)"
    "sender \<noteq> 0 \<longrightarrow> isAuthorized s (owners s tid) sender tid"
proof -
  from assms have u: "update to tid sender s = Inr (frm, s')"
    by (auto simp: transferFrom_def split: if_splits sum.splits prod.splits)
  note f = update_frame[OF u] and o = update_owners[OF u]
  show "nextTokenId s' = nextTokenId s" "encryptedStakes s' = encryptedStakes s"
    "pendingByRequest s' = pendingByRequest s" "counterRequest s' = counterRequest s"
    "requestedHandles s' = requestedHandles s" "owners s' = (owners s)(tid := to)"
    "sender \<noteq> 0 \<longrightarrow> isAuthorized s (owners s tid) sender tid"
    using f o by simp_all
qed

lemma exec_cases:
  obtains (same) "exec ev s c = s"
  | (stake) sender val tid where "c = Stake sender val" "sender \<noteq> 0"
      "stake ev sender val s = Inr (tid, exec ev s c)"
  | (redeem) sender tid rid where "c = Redeem sender tid" "sender \<noteq> 0"
      "redeem ev sender tid s = Inr (rid, exec ev s c)"
  | (fulfill) sender rid ct pf b where "c = OnDecryptionFulfilled sender rid ct pf" "sender \<noteq> 0"
      "onDecryptionFulfilled ev sender rid ct pf s = Inr (b, exec ev s c)"
  | (transfer) sender frm to tid r where "sender \<noteq> 0"
      "transferFrom sender frm to tid s = Inr (r, exec ev s c)"
  | (approve) sender to tid r where "sender \<noteq> 0" "approve sender to tid s = Inr (r, exec ev s c)"
  | (approveAll) sender operator approved r where "sender \<noteq> 0"
      "setApprovalForAll sender operator approved s = Inr (r, exec ev s c)"
proof (cases c)
  case c: (Stake sender val)
  show ?thesis
  proof (cases "sender = 0 \<or> (\<exists>e. stake ev sender val s = Inl e)")
    case True
    then have "exec ev s c = s" by (auto simp: c transact_def)
    then show ?thesis by (rule same)
  next
    case False
    then obtain tid s' where r: "stake ev sender val s = Inr (tid, s')"
      by (cases "stake ev sender val s") auto
    with False have "exec ev s c = s'" by (simp add: c transact_def)
    with r False c show ?thesis by (intro stake[of sender val tid]) simp_all
  qed
next
  case c: (Redeem sender tid)
  show ?thesis
  proof (cases "sender = 0 \<or> (\<exists>e. redeem ev sender tid s = Inl e)")
    case True
    then have "exec ev s c = s" by (auto simp: c transact_def)
    then show ?thesis by (rule same)
  next
    case False
    then obtain rid s' where r: "redeem ev sender tid s = Inr (rid, s')"
      by (cases "redeem ev sender tid s") auto
    with False have "exec ev s c = s'" by (simp add: c transact_def)
    with r False c show ?thesis by (intro redeem[of sender tid rid]) simp_all
  qed
next
  case c: (OnDecryptionFulfilled sender rid ct pf)
  show ?thesis
  proof (cases "sender = 0 \<or> (\<exists>e. onDecryptionFulfilled ev sender rid ct pf s = Inl e)")
    case True
    then have "exec ev s c = s" by (auto simp: c transact_def)
    then show ?thesis by (rule same)
  next
    case False
    then obtain b s' where r: "onDecryptionFulfilled ev sender rid ct pf s = Inr (b, s')"
      by (cases "onDecryptionFulfilled ev sender rid ct pf s") auto
    with False have "exec ev s c = s'" by (simp add: c transact_def)
    with r False c show ?thesis by (intro fulfill[of sender rid ct pf b]) simp_all
  qed
next
  case c: (TransferFrom sender frm to tid)
  show ?thesis
  proof (cases "sender = 0 \<or> (\<exists>e. transferFrom sender frm to tid s = Inl e)")
    case True
    then have "exec ev s c = s" by (auto simp: c transact_def)
    then show ?thesis by (rule same)
  next
    case False
    then obtain r s' where r: "transferFrom sender frm to tid s = Inr (r, s')"
      by (cases "transferFrom sender frm to tid s") auto
    with False have "exec ev s c = s'" by (simp add: c transact_def)
    with r False c show ?thesis by (intro transfer[of sender frm to tid r]) simp_all
  qed
next
  case c: (SafeTransferFrom sender frm to tid)
  show ?thesis
  proof (cases "sender = 0 \<or> (\<exists>e. safeTransferFrom ev sender frm to tid s = Inl e)")
    case True
    then have "exec ev s c = s" by (auto simp: c transact_def)
    then show ?thesis by (rule same)
  next
    case False
    then obtain r s' where r: "safeTransferFrom ev sender frm to tid s = Inr (r, s')"
      by (cases "safeTransferFrom ev sender frm to tid s") auto
    then have t: "transferFrom sender frm to tid s = Inr (r, s')"
      by (simp add: safeTransferFrom_def split: sum.splits if_splits)
    from r False have "exec ev s c = s'" by (simp add: c transact_def)
    with t False c show ?thesis by (intro transfer[of sender frm to tid r]) simp_all
  qed
next
  case c: (Approve sender to tid)
  show ?thesis
  proof (cases "sender = 0 \<or> (\<exists>e. approve sender to tid s = Inl e)")
    case True
    then have "exec ev s c = s" by (auto simp: c transact_def)
    then show ?thesis by (rule same)
  next
    case False
    then obtain r s' where r: "approve sender to tid s = Inr (r, s')"
      by (cases "approve sender to tid s") auto
    with False have "exec ev s c = s'" by (simp add: c transact_def)
    with r False c show ?thesis by (intro approve[of sender to tid r]) simp_all
  qed
next
  case c: (SetApprovalForAll sender operator approved)
  show ?thesis
  proof (cases "sender = 0 \<or> (\<exists>e. setApprovalForAll sender operator approved s = Inl e)")
    case True
    then have "exec ev s c = s" by (auto simp: c transact_def)
    then show ?thesis by (rule same)
  next
    case False
    then obtain r s' where r: "setApprovalForAll sender operator approved s = Inr (r, s')"
      by (cases "setApprovalForAll sender operator approved s") auto
    with False have "exec ev s c = s'" by (simp add: c transact_def)
    with r False c show ?thesis by (intro approveAll[of sender operator approved r]) simp_all
  qed
qed

subsection \<open>The counter, and certificates that were burned\<close>

lemma fulfill_fields:
  assumes "onDecryptionFulfilled ev sender rid ct pf s = Inr (b, s')"
  shows "owners s' = owners s" "encryptedStakes s' = encryptedStakes s"
    "nextTokenId s' = nextTokenId s" "counterRequest s' = counterRequest s"
    "requestedHandles s' = requestedHandles s"
    "pendingByRequest s' = (pendingByRequest s)(rid := noPending)"
    "\<exists>amount. abi_decode_uint256 ct = Inr amount \<and> amount \<le> ethBalance s \<and>
       ethBalance s' = ethBalance s - amount \<and>
       sent s' = sent s @ [(recipient (pendingByRequest s rid), amount)]"
    "exists (pendingByRequest s rid)" "checkSignatures ev rid ct pf s" "\<not> entered s'"
    "isTokenPending s' = (isTokenPending s)(tokenId (pendingByRequest s rid) := False)"
    "requestByToken s' = (requestByToken s)(tokenId (pendingByRequest s rid) := 0)"
  using assms
  by (auto simp: fulfill_unfold clearPending_fields split: if_splits sum.splits)

lemma approve_fields:
  assumes "approve sender to tid s = Inr (r, s')"
  shows "owners s' = owners s" "encryptedStakes s' = encryptedStakes s"
    "nextTokenId s' = nextTokenId s" "counterRequest s' = counterRequest s"
    "requestedHandles s' = requestedHandles s" "pendingByRequest s' = pendingByRequest s"
    "balances s' = balances s" "ownedTokens s' = ownedTokens s"
    "tokenApprovals s' = (tokenApprovals s)(tid := to)" "ethBalance s' = ethBalance s"
    "sent s' = sent s"
  using assms by (auto simp: approve_def Let_def split: if_splits)

lemma setApprovalForAll_fields:
  assumes "setApprovalForAll sender operator approved s = Inr (r, s')"
  shows "owners s' = owners s" "encryptedStakes s' = encryptedStakes s"
    "nextTokenId s' = nextTokenId s" "counterRequest s' = counterRequest s"
    "requestedHandles s' = requestedHandles s" "pendingByRequest s' = pendingByRequest s"
    "balances s' = balances s" "ownedTokens s' = ownedTokens s"
  using assms by (auto simp: setApprovalForAll_def split: if_splits)

lemma exec_nextTokenId:
  "nextTokenId (exec ev s c) =
     (case c of
        Stake sender val \<Rightarrow>
          (case stake ev sender val s of Inl e \<Rightarrow> nextTokenId s | Inr r \<Rightarrow> nextTokenId s + 1)
      | _ \<Rightarrow> nextTokenId s)"
proof (cases c)
  case c: (Stake sender val)
  show ?thesis
  proof (cases "stake ev sender val s")
    case (Inl e)
    then show ?thesis by (simp add: c transact_def)
  next
    case (Inr r)
    obtain tid s' where r: "r = (tid, s')" by (cases r)
    note st = Inr[unfolded r]
    have "sender \<noteq> 0" "tid = nextTokenId s" "nextTokenId s' = tid + 1"
      using stake_Inr(4,6)[OF st] stake_fields(3)[OF st] by simp_all
    then show ?thesis using st by (simp add: c transact_def)
  qed
next
  case c: (Redeem sender tid)
  show ?thesis
  proof (cases "redeem ev sender tid s")
    case (Inl e)
    then show ?thesis by (simp add: c transact_def)
  next
    case (Inr r)
    obtain rid s' where r: "r = (rid, s')" by (cases r)
    show ?thesis using redeem_fields(4)[OF Inr[unfolded r]] Inr r by (simp add: c transact_def)
  qed
next
  case c: (OnDecryptionFulfilled sender rid ct pf)
  show ?thesis
    by (simp add: c transact_def fulfill_unfold clearPending_fields split: sum.splits)
next
  case c: (TransferFrom sender frm to tid)
  show ?thesis
  proof (cases "transferFrom sender frm to tid s")
    case (Inl e)
    then show ?thesis by (simp add: c transact_def)
  next
    case (Inr r)
    obtain u s' where r: "r = (u, s')" by (cases r)
    show ?thesis using transferFrom_frame(1)[OF Inr[unfolded r]] Inr r by (simp add: c transact_def)
  qed
next
  case c: (SafeTransferFrom sender frm to tid)
  show ?thesis
  proof (cases "transferFrom sender frm to tid s")
    case (Inl e)
    then show ?thesis by (simp add: c transact_def safeTransferFrom_def)
  next
    case (Inr r)
    obtain u s' where r: "r = (u, s')" by (cases r)
    show ?thesis using transferFrom_frame(1)[OF Inr[unfolded r]] Inr r
      by (simp add: c transact_def safeTransferFrom_def)
  qed
next
  case c: (Approve sender to tid)
  show ?thesis by (simp add: c transact_def approve_def Let_def)
next
  case c: (SetApprovalForAll sender operator approved)
  show ?thesis by (simp add: c transact_def setApprovalForAll_def)
qed

lemma exec_nextTokenId_mono: "nextTokenId s \<le> nextTokenId (exec ev s c)"
  by (simp add: exec_nextTokenId split: call.splits sum.splits)



lemma exec_burned:
  assumes i: "inv s" and b: "owners s t = 0" and e: "encryptedStakes s t = 0"
    and lt: "t < nextTokenId s"
  shows "owners (exec ev s c) t = 0 \<and> encryptedStakes (exec ev s c) t = 0 \<and>
         t < nextTokenId (exec ev s c)"
proof -
  have lt': "t < nextTokenId (exec ev s c)"
    using lt exec_nextTokenId_mono[of s ev c] by simp
  have "owners (exec ev s c) t = 0 \<and> encryptedStakes (exec ev s c) t = 0"
  proof (cases rule: exec_cases[of ev s c])
    case same
    then show ?thesis using b e by simp
  next
    case (stake sender val tid)
    have "tid = nextTokenId s" using stake_Inr(4)[OF stake(3)] .
    with lt have "tid \<noteq> t" by simp
    then show ?thesis using stake_fields(2,4)[OF stake(3)] b e by simp
  next
    case (redeem sender tid rid)
    then show ?thesis using redeem_fields(3,5)[OF redeem(3)] b e by simp
  next
    case (fulfill sender rid ct pf b')
    then show ?thesis using b e fulfill_fields(1,2)[OF fulfill(3)] by simp
  next
    case (transfer sender frm to tid r)
    note f = transferFrom_frame[OF transfer(2)]
    have "tid \<noteq> t"
    proof
      assume "tid = t"
      with f(7) transfer(1) b have "isAuthorized s 0 sender t" by simp
      with i b transfer(1) show False
        by (auto simp: isAuthorized_def isApprovedForAll_def inv_def approvals_ok_def)
    qed
    then show ?thesis using f b e by simp
  next
    case (approve sender to tid r)
    then show ?thesis using b e approve_fields(1,2)[OF approve(2)] by simp
  next
    case (approveAll sender operator approved r)
    then show ?thesis using b e setApprovalForAll_fields(1,2)[OF approveAll(2)] by simp
  qed
  with lt' show ?thesis by simp
qed

lemma run_burned:
  assumes "inv s" and "owners s t = 0" and "encryptedStakes s t = 0" and "t < nextTokenId s"
  shows "inv (run ev s cs) \<and> owners (run ev s cs) t = 0 \<and> encryptedStakes (run ev s cs) t = 0"
  using assms unfolding run_def
proof (induction cs arbitrary: s)
  case Nil
  then show ?case by simp
next
  case (Cons c cs)
  from exec_burned[OF Cons.prems, of ev c] inv_exec[OF Cons.prems(1), of ev c]
  show ?case using Cons.IH[of "exec ev s c"] by simp
qed

lemma redeem_never_pending_error:
  assumes i: "inv s"
  shows "redeem ev sender tid s \<noteq> Inl RedemptionAlreadyPending"
proof (cases "owners s tid = 0")
  case True
  then show ?thesis using i
    by (simp add: redeem_def nonReentrant_def redeem_body_def inv_def)
next
  case False
  then have np: "\<not> isTokenPending s tid" using i by (auto simp: inv_def)
  let ?s1 = "s\<lparr>entered := True, encryptedStakes := (encryptedStakes s)(tid := 0)\<rparr>"
  from update_burn_succeeds[of tid ?s1] obtain s2 where
    u: "update 0 tid 0 ?s1 = Inr (owners s tid, s2)" by auto
  show ?thesis using i False np u
    by (simp add: redeem_def nonReentrant_def redeem_body_def burn_def requestDecryption_def
        inv_def Let_def)
qed

subsection \<open>The enumeration after stake and redeem\<close>

lemma update_mint_fields:
  assumes e: "enum_ok s" and i: "ids_ok s" and lt: "tid < nextTokenId s"
    and free: "owners s tid = 0" and to: "to \<noteq> 0"
    and u: "update to tid auth s = Inr (p, s')"
  shows "balances s' = (balances s)(to := balances s to + 1)"
    "ownedTokens s' = (ownedTokens s)(to := (ownedTokens s to)(balances s to := tid))"
    "ownedTokensIndex s' = (ownedTokensIndex s)(tid := balances s to)"
proof -
  have ei: "enum_inv (owners s) (balances s) (ownedTokens s) (ownedTokensIndex s)"
    using e by (simp add: enum_ok_def)
  have lim: "\<And>t. owners s t \<noteq> 0 \<Longrightarrow> t < nextTokenId s" and mx: "nextTokenId s \<le> MAX_UINT256"
    using i by (auto simp: ids_ok_def)
  have "balances s to < nextTokenId s"
    using bal_bound(2)[OF ei to lim lt] free to by simp
  then have inc: "unchecked_inc (balances s to) = balances s to + 1"
    using mx by (simp add: unchecked_inc_eq)
  from update_Inr[OF u] obtain s1 where b: "erc721_update to tid auth s = Inr (p, s1)"
    and c: "p = 0 \<longrightarrow> to \<noteq> 0 \<longrightarrow> addTokenToOwnerEnumeration to tid s1 = Inr s'"
    by blast
  note f1 = erc721_update_Inr[OF b]
  have p: "p = 0" using f1(1) free by simp
  note a = addTokenToOwnerEnumeration_Inr[OF c[rule_format, OF p to]]
  show "balances s' = (balances s)(to := balances s to + 1)"
    "ownedTokens s' = (ownedTokens s)(to := (ownedTokens s to)(balances s to := tid))"
    "ownedTokensIndex s' = (ownedTokensIndex s)(tid := balances s to)"
    using a f1 inc p to by simp_all
qed


lemma stake_enum_fields:
  assumes i: "inv s" and st: "stake ev sender val s = Inr (tid, s')"
  shows "balances s' = (balances s)(sender := balances s sender + 1)"
    "ownedTokens s' = (ownedTokens s)(sender := (ownedTokens s sender)(balances s sender := tid))"
    "ownedTokensIndex s' = (ownedTokensIndex s)(tid := balances s sender)"
proof -
  let ?s1 = "s\<lparr>ethBalance := ethBalance s + val, entered := True, nextTokenId := tid + 1\<rparr>"
  from stake_Inr(1)[OF st] obtain s2 where
    u: "update sender tid 0 ?s1 = Inr (0, s2)"
    and s': "s' = s2\<lparr>encryptedStakes := (encryptedStakes s2)(tid := asEuint256 ev val),
                  requestByToken := (requestByToken s2)(tid := 0),
                  isTokenPending := (isTokenPending s2)(tid := False), entered := False\<rparr>"
    by blast
  note facts = stake_Inr(2-)[OF st]
  have "enum_ok ?s1" using i by (simp add: inv_def enum_ok_def)
  moreover have "ids_ok ?s1" using i facts by (auto simp: inv_def ids_ok_def intro: less_SucI)
  moreover have "tid < nextTokenId ?s1" by simp
  moreover have "owners ?s1 tid = 0" using stake_fields(1)[OF st] by simp
  ultimately have m: "balances s2 = (balances ?s1)(sender := balances ?s1 sender + 1)"
    "ownedTokens s2 = (ownedTokens ?s1)(sender := (ownedTokens ?s1 sender)(balances ?s1 sender := tid))"
    "ownedTokensIndex s2 = (ownedTokensIndex ?s1)(tid := balances ?s1 sender)"
    using facts(5) u by (auto dest: update_mint_fields)
  show "balances s' = (balances s)(sender := balances s sender + 1)"
    "ownedTokens s' = (ownedTokens s)(sender := (ownedTokens s sender)(balances s sender := tid))"
    "ownedTokensIndex s' = (ownedTokensIndex s)(tid := balances s sender)"
    using m by (simp_all add: s')
qed





subsection \<open>Requests keep their record and handles\<close>


lemma exec_request:
  assumes lt: "rid < counterRequest s"
  shows "rid < counterRequest (exec ev s c) \<and>
         requestedHandles (exec ev s c) rid = requestedHandles s rid \<and>
         (pendingByRequest (exec ev s c) rid = pendingByRequest s rid \<or>
          pendingByRequest (exec ev s c) rid = noPending)"
proof (cases rule: exec_cases[of ev s c])
  case same
  then show ?thesis using lt by simp
next
  case (stake sender val tid)
  then show ?thesis using lt stake_fields(7,8,9)[OF stake(3)] by simp
next
  case (redeem sender tid rid')
  note f = redeem_fields[OF redeem(3)]
  have "rid' \<noteq> rid" using f(1) lt by simp
  then show ?thesis using lt f by simp
next
  case (fulfill sender rid' ct pf b)
  then show ?thesis using lt fulfill_fields(4,5,6)[OF fulfill(3)] by simp
next
  case (transfer sender frm to tid r)
  then show ?thesis using lt transferFrom_frame(3,4,5)[OF transfer(2)] by simp
next
  case (approve sender to tid r)
  then show ?thesis using lt approve_fields(4,5,6)[OF approve(2)] by simp
next
  case (approveAll sender operator approved r)
  then show ?thesis using lt setApprovalForAll_fields(4,5,6)[OF approveAll(2)] by simp
qed

lemma run_request:
  assumes "rid < counterRequest s"
    and "pendingByRequest s rid = p \<or> pendingByRequest s rid = noPending"
  shows "rid < counterRequest (run ev s cs) \<and>
         requestedHandles (run ev s cs) rid = requestedHandles s rid \<and>
         (pendingByRequest (run ev s cs) rid = p \<or> pendingByRequest (run ev s cs) rid = noPending)"
  using assms unfolding run_def
proof (induction cs arbitrary: s)
  case Nil
  then show ?case by simp
next
  case (Cons c cs)
  from exec_request[OF Cons.prems(1), of ev c] Cons.prems(2)
  have "rid < counterRequest (exec ev s c)"
    and h: "requestedHandles (exec ev s c) rid = requestedHandles s rid"
    and "pendingByRequest (exec ev s c) rid = p \<or> pendingByRequest (exec ev s c) rid = noPending"
    by auto
  from Cons.IH[OF this(1,3)] h show ?case by simp
qed

subsection \<open>The scenarios evaluated\<close>

lemma liveEnv_fields:
  "decryptionOracle liveEnv = 99" "enforceOracleCheck liveEnv"
  "asEuint256 liveEnv v = v + 1" "acceptsEther liveEnv a" "acceptsToken liveEnv a"
  "decrypt liveEnv h = h - 1"
  "verifySignatures liveEnv [h] ct pf \<longleftrightarrow> abi_decode_uint256 ct = Inr (h - 1) \<and> pf = [1]"
  by (simp_all add: liveEnv_def)


lemma init_fields:
  "entered init = False" "owners init t = 0" "nextTokenId init = 1" "counterRequest init = 0"
  "encryptedStakes init t = 0" "ethBalance init = 0" "sent init = []" "balances init a = 0"
  "ownedTokens init a i = 0" "ownedTokensIndex init t = 0" "isTokenPending init t = False"
  "tokenApprovals init t = 0" "operatorApprovals init a b = False"
  "pendingByRequest init r = noPending" "requestedHandles init r = []"
  by (simp_all add: init_def)

lemma small_lt_max: "n < 10 \<Longrightarrow> n < MAX_UINT256"
  by (simp add: MAX_UINT256_def)

lemma stake_exec:
  assumes "inv s" and "val > 0" and "sender \<noteq> 0" and "acceptsToken ev sender"
    and "nextTokenId s < MAX_UINT256"
  shows "stake ev sender val s = Inr (nextTokenId s, exec ev s (Stake sender val))"
proof -
  from stake_succeeds[OF assms] obtain s' where
    st: "stake ev sender val s = Inr (nextTokenId s, s')" by blast
  then show ?thesis using assms(3) by (simp add: transact_def)
qed

lemma redeem_exec:
  assumes "inv s" and "owners s tid \<noteq> 0" and "isAuthorized s (owners s tid) sender tid"
    and "encryptedStakes s tid \<noteq> 0"
  shows "redeem ev sender tid s = Inr (counterRequest s, exec ev s (Redeem sender tid))"
proof -
  from redeem_succeeds[OF assms] obtain s' where
    rd: "redeem ev sender tid s = Inr (counterRequest s, s')" by blast
  moreover have "sender \<noteq> 0" using assms(3) by (simp add: isAuthorized_def)
  ultimately show ?thesis by (simp add: transact_def)
qed

lemma staked_stake: "stake liveEnv 1 5 init = Inr (1, staked)"
  using stake_exec[OF inv_init, of 5 1 liveEnv]
  by (simp add: staked_def liveEnv_fields init_fields small_lt_max del: exec.simps)

lemmas staked_fields = stake_fields[OF staked_stake] stake_enum_fields[OF inv_init staked_stake]

lemma staked_inv: "inv staked"
  unfolding staked_def by (rule inv_exec[OF inv_init])

lemma redeeming_redeem: "redeem liveEnv 1 1 staked = Inr (0, redeeming)"
  using redeem_exec[OF staked_inv, of 1 1 liveEnv]
  using staked_fields
  by (simp add: redeeming_def init_fields isAuthorized_def liveEnv_fields del: exec.simps)

lemmas redeeming_fields = redeem_fields[OF redeeming_redeem]


lemma redeeming_values:
  "\<not> entered redeeming" "pendingByRequest redeeming 0 = \<lparr>recipient = 1, tokenId = 1, exists = True\<rparr>"
  "requestedHandles redeeming 0 = [6]" "ethBalance redeeming = 5" "sent redeeming = []"
  "isTokenPending redeeming 1" "owners redeeming 1 = 0"
  using redeeming_fields staked_fields
  by (simp_all add: init_fields liveEnv_fields)

lemma released_fulfill:
  "onDecryptionFulfilled liveEnv 99 0 (enc8 5) [1] redeeming = Inr (True, released)"
  using redeeming_values
  by (simp add: released_def transact_def fulfill_unfold liveEnv_fields
      checkSignatures_def decode_enc8)

lemmas released_fields = fulfill_fields[OF released_fulfill]

lemma released_values:
  "\<not> entered released" "\<not> exists (pendingByRequest released 0)" "sent released = [(1, 5)]"
  "owners released 1 = 0"
  using released_fields redeeming_values
  by (simp_all add: noPending_def decode_enc8)

lemma redeeming_transact:
  "transact (onDecryptionFulfilled liveEnv 99 0 (enc8 5) [1]) redeeming = (Inr True, released)"
  by (simp add: transact_def released_fulfill)

lemma released_transact:
  "transact (onDecryptionFulfilled liveEnv 99 0 ct pf) released = (Inl UnknownRequest, released)"
  using released_values by (simp add: transact_def fulfill_unfold liveEnv_fields)

lemma rejectingEnv_fields:
  "decryptionOracle rejectingEnv = 99" "enforceOracleCheck rejectingEnv"
  "\<not> acceptsEther rejectingEnv a"
  "verifySignatures rejectingEnv = verifySignatures liveEnv"
  "rejectingEnv\<lparr>acceptsEther := \<lambda>_. True\<rparr> = liveEnv"
  by (simp_all add: rejectingEnv_def liveEnv_def)

lemma redeeming_check: "checkSignatures ev 0 (enc8 5) [1] redeeming \<longleftrightarrow>
    verifySignatures ev [6] (enc8 5) [1]"
  using redeeming_values by (simp add: checkSignatures_def)










lemma tokenApproved_approve: "approve 1 2 1 staked = Inr ((), tokenApproved)"
  using staked_fields
  by (simp add: tokenApproved_def transact_def approve_def Let_def)

lemmas tokenApproved_fields = approve_fields[OF tokenApproved_approve]

lemma tokenApproved_inv: "inv tokenApproved"
  unfolding tokenApproved_def by (rule inv_exec[OF staked_inv])

lemma tokenApproved_values:
  "owners tokenApproved 1 = 1" "tokenApprovals tokenApproved 1 = 2" "encryptedStakes tokenApproved 1 = 6"
  "counterRequest tokenApproved = 0" "ethBalance tokenApproved = 5" "sent tokenApproved = []"
  using tokenApproved_fields staked_fields
  by (simp_all add: init_fields liveEnv_fields)

lemma redeemingByOperator_redeem: "redeem liveEnv 2 1 tokenApproved = Inr (0, redeemingByOperator)"
  using redeem_exec[OF tokenApproved_inv, of 1 2 liveEnv] tokenApproved_values
  by (simp add: redeemingByOperator_def isAuthorized_def del: exec.simps)

lemmas redeemingByOperator_fields = redeem_fields[OF redeemingByOperator_redeem]

lemma releasedToOwner_fulfill:
  "onDecryptionFulfilled liveEnv 99 0 (enc8 5) [1] redeemingByOperator = Inr (True, releasedToOwner)"
  using redeemingByOperator_fields tokenApproved_values
  by (simp add: releasedToOwner_def transact_def fulfill_unfold liveEnv_fields
      checkSignatures_def decode_enc8)












section \<open>The claims\<close>



text \<open>
  Claim C2, as the code has it. A callback whose proof does not verify against the
  handles submitted for the request always fails, transfers no value and leaves all state
  unchanged. The checks run in the order sender, record, proof: the failure is
  \<open>InvalidProof\<close> when the sender passes the oracle check and a Pending Withdrawal Record
  exists for the request, \<open>InvalidOracle\<close> when the sender is rejected, and
  \<open>UnknownRequest\<close> when there is no record.
\<close>

theorem forged_proof_rejected:
  assumes "\<not> entered s" and "\<not> checkSignatures ev rid ct pf s"
  shows "transact (onDecryptionFulfilled ev sender rid ct pf) s =
           (Inl (if enforceOracleCheck ev \<and> sender \<noteq> decryptionOracle ev then InvalidOracle
                 else if \<not> exists (pendingByRequest s rid) then UnknownRequest
                 else InvalidProof), s)"
  using assms by (simp add: transact_def fulfill_unfold)

text \<open>A forged cleartext (9 instead of 5) for the pending request 0 is rejected as \<open>InvalidProof\<close>.\<close>

theorem forged_proof_rejected_witness:
  "\<not> checkSignatures liveEnv 0 (enc8 9) [1] redeeming \<and>
   transact (onDecryptionFulfilled liveEnv 99 0 (enc8 9) [1]) redeeming =
     (Inl InvalidProof, redeeming)"
proof -
  have h1: "\<not> entered redeeming" using redeeming_values by simp
  have h2: "\<not> checkSignatures liveEnv 0 (enc8 9) [1] redeeming"
    using redeeming_values by (simp add: checkSignatures_def liveEnv_fields decode_enc8)
  from forged_proof_rejected[OF h1 h2, of 99] show ?thesis
    using h2 redeeming_values by (simp add: liveEnv_fields)
qed

text \<open>The claim as stated (the failure is always \<open>InvalidProof\<close>) fails for a request that has
  been fulfilled already: handles were submitted for it, the forged proof does not verify,
  and the call fails \<open>UnknownRequest\<close>.\<close>

theorem forged_proof_counterexample:
  "\<not> checkSignatures liveEnv 0 (enc8 9) [1] released \<and>
   requestedHandles released 0 = [6] \<and>
   transact (onDecryptionFulfilled liveEnv 99 0 (enc8 9) [1]) released =
     (Inl UnknownRequest, released) \<and>
   fst (transact (onDecryptionFulfilled liveEnv 99 0 (enc8 9) [1]) released) \<noteq> Inl InvalidProof"
  using released_fields redeeming_values
  by (simp add: released_transact checkSignatures_def liveEnv_fields decode_enc8)

text \<open>
  Claim C3, as the code has it. When the value transfer inside the callback fails (the
  contract holds too little, or the recipient refuses the ether), the call aborts with
  \<open>TransferFailed\<close>, and the abort reverts every write of the call: the state after it is
  the state before it, with the Pending Withdrawal Record, the pending flag and the request
  index still in place. The same callback can be made again, and it pays the recorded
  recipient once the transfer goes through.
\<close>

theorem transfer_failure_reverts:
  assumes "\<not> entered s"
    and "enforceOracleCheck ev \<longrightarrow> sender = decryptionOracle ev"
    and "exists (pendingByRequest s rid)"
    and "checkSignatures ev rid ct pf s"
    and "abi_decode_uint256 ct = Inr amount"
    and "ethBalance s < amount \<or> \<not> acceptsEther ev (recipient (pendingByRequest s rid))"
  shows "transact (onDecryptionFulfilled ev sender rid ct pf) s = (Inl TransferFailed, s) \<and>
         (amount \<le> ethBalance s \<longrightarrow>
            (\<exists>s'. transact (onDecryptionFulfilled (ev\<lparr>acceptsEther := \<lambda>_. True\<rparr>) sender rid ct pf)
                     (snd (transact (onDecryptionFulfilled ev sender rid ct pf) s)) = (Inr True, s') \<and>
                  sent s' = sent s @ [(recipient (pendingByRequest s rid), amount)]))"
  using assms by (auto simp: transact_def fulfill_unfold checkSignatures_def clearPending_fields)

text \<open>A recipient that refuses ether, then accepts it.\<close>

theorem transfer_failure_reverts_witness:
  "\<not> acceptsEther rejectingEnv 1 \<and>
   transact (onDecryptionFulfilled rejectingEnv 99 0 (enc8 5) [1]) redeeming =
     (Inl TransferFailed, redeeming) \<and>
   (\<exists>s'. transact (onDecryptionFulfilled liveEnv 99 0 (enc8 5) [1]) redeeming = (Inr True, s') \<and>
         sent s' = [(1, 5)])"
proof -
  have h1: "\<not> entered redeeming"
    and h2: "enforceOracleCheck rejectingEnv \<longrightarrow> 99 = decryptionOracle rejectingEnv"
    and h3: "exists (pendingByRequest redeeming 0)"
    and h4: "checkSignatures rejectingEnv 0 (enc8 5) [1] redeeming"
    and h5: "abi_decode_uint256 (enc8 5) = Inr 5"
    and h6: "ethBalance redeeming < 5 \<or>
             \<not> acceptsEther rejectingEnv (recipient (pendingByRequest redeeming 0))"
    using redeeming_values
    by (simp_all add: rejectingEnv_fields redeeming_check liveEnv_fields decode_enc8)
  note t = transfer_failure_reverts[OF h1 h2 h3 h4 h5 h6]
  note a = t[THEN conjunct1] and b = t[THEN conjunct2]
  from b have "\<exists>s'. transact (onDecryptionFulfilled liveEnv 99 0 (enc8 5) [1]) redeeming =
                 (Inr True, s') \<and> sent s' = [(1, 5)]"
    unfolding a rejectingEnv_fields using redeeming_values by simp
  with a show ?thesis by (simp add: rejectingEnv_fields)
qed

text \<open>The claim as stated (the record remains deleted, no second callback is possible) fails:
  after the failed call the record exists, the certificate is still marked pending, and the
  callback made again is not an unknown request; it pays when the recipient accepts.\<close>

theorem transfer_failure_counterexample:
  "transact (onDecryptionFulfilled rejectingEnv 99 0 (enc8 5) [1]) redeeming =
     (Inl TransferFailed, redeeming) \<and>
   exists (pendingByRequest redeeming 0) \<and> isTokenPending redeeming 1 \<and>
   transact (onDecryptionFulfilled rejectingEnv 99 0 (enc8 5) [1]) redeeming \<noteq>
     (Inl UnknownRequest, redeeming) \<and>
   transact (onDecryptionFulfilled liveEnv 99 0 (enc8 5) [1]) redeeming = (Inr True, released) \<and>
   sent released = [(1, 5)]"
proof -
  have "transact (onDecryptionFulfilled rejectingEnv 99 0 (enc8 5) [1]) redeeming =
     (Inl TransferFailed, redeeming)"
    using redeeming_values
    by (simp add: transact_def fulfill_unfold rejectingEnv_fields redeeming_check liveEnv_fields
        decode_enc8)
  then show ?thesis
    using redeeming_values released_values by (simp add: redeeming_transact)
qed

text \<open>
  Claim C4, as the code has it. At most one \<open>redeem\<close> of a certificate can ever succeed.
  After a successful \<open>redeem\<close> of \<open>tid\<close>, in every state reached by any further
  transactions \<open>cs\<close>, \<open>getEncryptedStake\<close> of \<open>tid\<close> fails \<open>StakeNotFound\<close> and \<open>redeem\<close>
  of \<open>tid\<close> by any caller fails \<open>InvalidCertificate\<close>. The contract enforces this itself,
  through the ownership check: the certificate is burned and its id is never minted again.
  The pending-flag check is never the one that rejects: between transactions no \<open>redeem\<close>,
  of any certificate, fails \<open>RedemptionAlreadyPending\<close>.
\<close>

theorem redeem_at_most_once:
  assumes i: "inv s" and rd: "redeem ev sender tid s = Inr (rid, s1)"
  shows "getEncryptedStake (run ev s1 cs) tid = Inl StakeNotFound \<and>
         redeem ev caller tid (run ev s1 cs) = Inl InvalidCertificate \<and>
         redeem ev caller tid' (run ev s1 cs) \<noteq> Inl RedemptionAlreadyPending"
proof -
  have i1: "inv s1" using i rd by (rule inv_redeem)
  note f = redeem_fields[OF rd]
  have live: "owners s tid \<noteq> 0" using redeem_Inr(3)[OF rd] .
  then have "tid < nextTokenId s1" using i f(4) by (auto simp: inv_def ids_ok_def)
  moreover have "owners s1 tid = 0" "encryptedStakes s1 tid = 0" using f by simp_all
  ultimately have r: "inv (run ev s1 cs) \<and> owners (run ev s1 cs) tid = 0 \<and>
      encryptedStakes (run ev s1 cs) tid = 0"
    using i1 by (intro run_burned) simp_all
  then have "getEncryptedStake (run ev s1 cs) tid = Inl StakeNotFound"
    by (simp add: getEncryptedStake_def isInitialized_def)
  moreover have "redeem ev caller tid (run ev s1 cs) = Inl InvalidCertificate"
    using r by (simp add: redeem_def nonReentrant_def redeem_body_def inv_def)
  moreover have "redeem ev caller tid' (run ev s1 cs) \<noteq> Inl RedemptionAlreadyPending"
    using r by (intro redeem_never_pending_error) simp
  ultimately show ?thesis by simp
qed

text \<open>The first scenario: after the redeem and the callback, certificate 1 cannot be redeemed again.\<close>

theorem redeem_at_most_once_witness:
  "inv staked \<and> redeem liveEnv 1 1 staked = Inr (0, redeeming) \<and>
   getEncryptedStake (run liveEnv redeeming [OnDecryptionFulfilled 99 0 (enc8 5) [1]]) 1 =
     Inl StakeNotFound \<and>
   redeem liveEnv 1 1 (run liveEnv redeeming [OnDecryptionFulfilled 99 0 (enc8 5) [1]]) =
     Inl InvalidCertificate"
  using redeem_at_most_once[OF staked_inv redeeming_redeem,
      of "[OnDecryptionFulfilled 99 0 (enc8 5) [1]]" 1 1]
    staked_inv redeeming_redeem
  by simp

text \<open>The claim as stated (enforced by the pending-flag check) fails: while the flag is set the
  second \<open>redeem\<close> is rejected by the ownership check, and after the callback has cleared
  the flag it is rejected all the same.\<close>

theorem redeem_at_most_once_counterexample:
  "redeem liveEnv 1 1 staked = Inr (0, redeeming) \<and>
   isTokenPending redeeming 1 \<and> redeem liveEnv 1 1 redeeming = Inl InvalidCertificate \<and>
   \<not> isTokenPending released 1 \<and> redeem liveEnv 1 1 released = Inl InvalidCertificate"
proof -
  have "\<not> isTokenPending released 1"
    using released_fields(11) redeeming_values by simp
  moreover have "redeem liveEnv 1 1 redeeming = Inl InvalidCertificate"
    using redeeming_values by (simp add: redeem_def nonReentrant_def redeem_body_def)
  moreover have "redeem liveEnv 1 1 released = Inl InvalidCertificate"
    using released_values by (simp add: redeem_def nonReentrant_def redeem_body_def)
  ultimately show ?thesis using redeeming_redeem redeeming_values by simp
qed

text \<open>
  Claim C5. \<open>stake\<close> with a zero amount fails \<open>ZeroAmount\<close> and the state after the call
  is the state before it: no certificate, no change of the counter, no encrypted balance,
  no pending entry.
\<close>

theorem stake_zero_fails:
  "\<not> entered s \<Longrightarrow>
     stake ev sender 0 s = Inl ZeroAmount \<and> transact (stake ev sender 0) s = (Inl ZeroAmount, s)"
  by (simp add: transact_def stake_def nonReentrant_def stake_body_def)

text \<open>On the freshly deployed contract.\<close>

theorem stake_zero_fails_witness:
  "\<not> entered init \<and> transact (stake liveEnv 1 0) init = (Inl ZeroAmount, init)"
  using stake_zero_fails[of init liveEnv 1] by (simp add: init_fields)

text \<open>
  Claim C6. For a live certificate and a caller that is neither its owner, nor an
  operator approved by the owner, nor the account approved for the certificate,
  \<open>redeem\<close> fails \<open>Unauthorized\<close> and leaves the state exactly as it was.
\<close>

theorem redeem_unauthorized:
  assumes "\<not> entered s" and "owners s tid \<noteq> 0" and "sender \<noteq> owners s tid"
    and "\<not> isApprovedForAll s (owners s tid) sender" and "tokenApprovals s tid \<noteq> sender"
  shows "transact (redeem ev sender tid) s = (Inl Unauthorized, s)"
  using assms
  by (simp add: transact_def redeem_def nonReentrant_def redeem_body_def isAuthorized_def
      isApprovedForAll_def Let_def)

text \<open>Account 2 tries to redeem the certificate of account 1.\<close>

theorem redeem_unauthorized_witness:
  "owners staked 1 = 1 \<and> transact (redeem liveEnv 2 1) staked = (Inl Unauthorized, staked)"
proof -
  have h: "\<not> entered staked" "owners staked 1 \<noteq> 0" "2 \<noteq> owners staked 1"
    "\<not> isApprovedForAll staked (owners staked 1) 2" "tokenApprovals staked 1 \<noteq> 2"
    using staked_fields by (simp_all add: init_fields isApprovedForAll_def)
  from redeem_unauthorized[OF h, of liveEnv] show ?thesis
    using staked_fields by simp
qed









text \<open>
  Claim C10. After a successful \<open>redeem\<close>, the recipient in the Pending Withdrawal Record
  is the owner of the certificate at the time of the call, not the caller, and the record
  stays so through any further transactions \<open>cs\<close>: a callback for the request that
  succeeds pays the decoded amount to that owner.
\<close>

theorem redeem_pays_owner:
  assumes rd: "redeem ev sender tid s = Inr (rid, s1)"
    and fu: "onDecryptionFulfilled ev oracle rid ct pf (run ev s1 cs) = Inr (b, s2)"
  shows "recipient (pendingByRequest s1 rid) = owners s tid \<and>
         (\<exists>amount. abi_decode_uint256 ct = Inr amount \<and>
                    sent s2 = sent (run ev s1 cs) @ [(owners s tid, amount)])"
proof -
  let ?p = "\<lparr>recipient = owners s tid, tokenId = tid, exists = True\<rparr>"
  note f = redeem_fields[OF rd]
  have p1: "pendingByRequest s1 rid = ?p" using f(8) by simp
  have "rid < counterRequest s1" using f(2) by simp
  from run_request[OF this, of ?p ev cs] p1
  have "pendingByRequest (run ev s1 cs) rid = ?p \<or> pendingByRequest (run ev s1 cs) rid = noPending"
    by simp
  moreover have "exists (pendingByRequest (run ev s1 cs) rid)" using fulfill_fields(8)[OF fu] .
  ultimately have "pendingByRequest (run ev s1 cs) rid = ?p" by (auto simp: noPending_def)
  with fulfill_fields(7)[OF fu] p1 show ?thesis by auto
qed

text \<open>Account 2, approved by the owner, redeems certificate 1 of account 1: the 5 wei go to account 1.\<close>

theorem redeem_pays_owner_witness:
  "owners tokenApproved 1 = 1 \<and> redeem liveEnv 2 1 tokenApproved = Inr (0, redeemingByOperator) \<and>
   onDecryptionFulfilled liveEnv 99 0 (enc8 5) [1] (run liveEnv redeemingByOperator []) =
     Inr (True, releasedToOwner) \<and>
   recipient (pendingByRequest redeemingByOperator 0) = 1 \<and> sent releasedToOwner = [(1, 5)]"
proof -
  have r: "run liveEnv redeemingByOperator [] = redeemingByOperator" by (simp add: run_def)
  have f: "onDecryptionFulfilled liveEnv 99 0 (enc8 5) [1] (run liveEnv redeemingByOperator []) =
     Inr (True, releasedToOwner)"
    unfolding r by (rule releasedToOwner_fulfill)
  from redeem_pays_owner[OF redeemingByOperator_redeem f]
  show ?thesis
    using redeemingByOperator_redeem f redeemingByOperator_fields tokenApproved_values
    by (auto simp: r decode_enc8)
qed

end
